theory Spec2Isabelle
  imports Main "HOL-Library.Word" "HOL-Library.Char_ord" "HOL-Library.List_Lexorder"
    "HOL-Library.Product_Lexorder" "HOL-Library.Multiset" "HOL-Library.AList"
    "HOL-Library.Sublist"
begin

unbundle bit_operations_syntax

section \<open>Exceptions and calls that do not deliver\<close>

text \<open>
  The exceptions the program can meet.  A call that does not deliver a value either
  raises or blocks for ever (\<open>open\<close> on a FIFO without a writer, a container that never
  exits).
\<close>

datatype exn = CalledProcessError int | FileNotFoundError | FileExistsError | KeyboardInterrupt
  | PermissionError | IsADirectoryError | UnicodeEncodeError | BrokenPipeError

datatype stop = Raised exn | Blocked

definition and_then :: "stop + 'a \<Rightarrow> ('a \<Rightarrow> stop + 'b) \<Rightarrow> stop + 'b" where
  "and_then r f = (case r of Inl s \<Rightarrow> Inl s | Inr x \<Rightarrow> f x)"

section \<open>Byte strings and SHA-256\<close>

text \<open>
  Python \<open>str\<close> values (file names, relative paths, hex digests) and \<open>bytes\<close> values
  (file contents, the data fed to a hasher) are both modelled as lists of 8-bit characters.
  A file name is represented by its bytes on disk (\<open>os.fsdecode\<close> maps them one-to-one to
  a \<open>str\<close>, undecodable bytes becoming lone surrogates), the file system encoding being
  UTF-8.  \<open>hashlib.sha256\<close> is the FIPS 180-4 function on 32-bit words.
\<close>

type_synonym bytes = string
type_synonym u32 = "32 word"
type_synonym sha_state = "u32 \<times> u32 \<times> u32 \<times> u32 \<times> u32 \<times> u32 \<times> u32 \<times> u32"

text \<open>
  \<open>utf8_ok\<close>: the bytes are well-formed UTF-8 (no overlong form, no surrogate, nothing
  above U+10FFFF).  \<open>s.encode()\<close> returns the bytes of \<open>s\<close> when they are, and raises
  \<open>UnicodeEncodeError\<close> on the lone surrogates of a name that is not.
\<close>

definition cont :: "char \<Rightarrow> bool" where
  "cont c = (128 \<le> (of_char c :: nat) \<and> (of_char c :: nat) \<le> 191)"

definition second3 :: "nat \<Rightarrow> char \<Rightarrow> bool" where
  "second3 b c = (if b = 224 then 160 \<le> (of_char c :: nat) \<and> (of_char c :: nat) \<le> 191
                  else if b = 237 then 128 \<le> (of_char c :: nat) \<and> (of_char c :: nat) \<le> 159
                  else cont c)"

definition second4 :: "nat \<Rightarrow> char \<Rightarrow> bool" where
  "second4 b c = (if b = 240 then 144 \<le> (of_char c :: nat) \<and> (of_char c :: nat) \<le> 191
                  else if b = 244 then 128 \<le> (of_char c :: nat) \<and> (of_char c :: nat) \<le> 143
                  else cont c)"

fun utf8_ok :: "string \<Rightarrow> bool" where
  "utf8_ok [] = True"
| "utf8_ok (c # r) =
     (if (of_char c :: nat) < 128 then utf8_ok r
      else if 194 \<le> (of_char c :: nat) \<and> (of_char c :: nat) \<le> 223
        then (case r of c1 # r1 \<Rightarrow> cont c1 \<and> utf8_ok r1 | _ \<Rightarrow> False)
      else if 224 \<le> (of_char c :: nat) \<and> (of_char c :: nat) \<le> 239
        then (case r of c1 # c2 # r2 \<Rightarrow> second3 (of_char c) c1 \<and> cont c2 \<and> utf8_ok r2 | _ \<Rightarrow> False)
      else if 240 \<le> (of_char c :: nat) \<and> (of_char c :: nat) \<le> 244
        then (case r of c1 # c2 # c3 # r3 \<Rightarrow>
                second4 (of_char c) c1 \<and> cont c2 \<and> cont c3 \<and> utf8_ok r3 | _ \<Rightarrow> False)
      else False)"

definition encode :: "string \<Rightarrow> stop + bytes" where
  "encode s = (if utf8_ok s then Inr s else Inl (Raised UnicodeEncodeError))"

function chunks :: "nat \<Rightarrow> 'a list \<Rightarrow> 'a list list" where
  "chunks n xs = (if n = 0 \<or> xs = [] then [] else take n xs # chunks n (drop n xs))"
  by pat_completeness auto
termination
  by (relation "measure (\<lambda>(n, xs). length xs)") auto

declare chunks.simps [simp del]

definition rotr :: "nat \<Rightarrow> u32 \<Rightarrow> u32" where
  "rotr n x = drop_bit n x OR push_bit (32 - n) x"

text \<open>The round constants and the initial hash value of FIPS 180-4, in decimal.\<close>

definition K256 :: "u32 list" where
  "K256 =
    [1116352408, 1899447441, 3049323471, 3921009573, 961987163, 1508970993, 2453635748, 2870763221,
     3624381080, 310598401, 607225278, 1426881987, 1925078388, 2162078206, 2614888103, 3248222580,
     3835390401, 4022224774, 264347078, 604807628, 770255983, 1249150122, 1555081692, 1996064986,
     2554220882, 2821834349, 2952996808, 3210313671, 3336571891, 3584528711, 113926993, 338241895,
     666307205, 773529912, 1294757372, 1396182291, 1695183700, 1986661051, 2177026350, 2456956037,
     2730485921, 2820302411, 3259730800, 3345764771, 3516065817, 3600352804, 4094571909, 275423344,
     430227734, 506948616, 659060556, 883997877, 958139571, 1322822218, 1537002063, 1747873779,
     1955562222, 2024104815, 2227730452, 2361852424, 2428436474, 2756734187, 3204031479, 3329325298]"

definition H256 :: "sha_state" where
  "H256 = (1779033703, 3144134277, 1013904242, 2773480762,
           1359893119, 2600822924, 528734635, 1541459225)"

definition be64 :: "nat \<Rightarrow> bytes" where
  "be64 n = map (\<lambda>k. char_of (n div 2 ^ k)) [56, 48, 40, 32, 24, 16, 8, 0]"

definition sha_pad :: "bytes \<Rightarrow> bytes" where
  "sha_pad m = m @ [char_of (128 :: nat)]
                 @ replicate ((119 - length m mod 64) mod 64) (char_of (0 :: nat))
                 @ be64 (8 * length m)"

fun be_words :: "bytes \<Rightarrow> u32 list" where
  "be_words (a # b # c # d # r) =
     (push_bit 24 (of_char a) OR push_bit 16 (of_char b) OR push_bit 8 (of_char c) OR of_char d)
       # be_words r"
| "be_words _ = []"

text \<open>
  The message schedule is kept as a sliding window of sixteen words: the head of the
  window is the word of the current round, and each round appends the word sixteen
  rounds ahead.
\<close>

definition next_w :: "u32 list \<Rightarrow> u32" where
  "next_w w =
     (let x = w ! 1; y = w ! 14
      in w ! 0 + (rotr 7 x XOR rotr 18 x XOR drop_bit 3 x)
         + w ! 9 + (rotr 17 y XOR rotr 19 y XOR drop_bit 10 y))"

definition sha_round :: "u32 \<Rightarrow> u32 \<Rightarrow> sha_state \<Rightarrow> sha_state" where
  "sha_round k w s =
     (case s of (a, b, c, d, e, f, g, h) \<Rightarrow>
       let t1 = h + (rotr 6 e XOR rotr 11 e XOR rotr 25 e) + ((e AND f) XOR (NOT e AND g)) + k + w;
           t2 = (rotr 2 a XOR rotr 13 a XOR rotr 22 a) + ((a AND b) XOR (a AND c) XOR (b AND c))
       in (t1 + t2, a, b, c, d + t1, e, f, g))"

fun rounds :: "u32 list \<Rightarrow> u32 list \<Rightarrow> sha_state \<Rightarrow> sha_state" where
  "rounds [] w s = s"
| "rounds (k # ks) w s = rounds ks (tl w @ [next_w w]) (sha_round k (hd w) s)"

definition add_state :: "sha_state \<Rightarrow> sha_state \<Rightarrow> sha_state" where
  "add_state s t =
     (case s of (a, b, c, d, e, f, g, h) \<Rightarrow>
      case t of (a', b', c', d', e', f', g', h') \<Rightarrow>
        (a + a', b + b', c + c', d + d', e + e', f + f', g + g', h + h'))"

definition compress :: "u32 list \<Rightarrow> sha_state \<Rightarrow> sha_state" where
  "compress blk h = add_state h (rounds K256 blk h)"

definition sha256 :: "bytes \<Rightarrow> sha_state" where
  "sha256 m = fold compress (chunks 16 (be_words (sha_pad m))) H256"

definition hex_digit :: "nat \<Rightarrow> char" where
  "hex_digit n = ''0123456789abcdef'' ! (n mod 16)"

definition hex32 :: "u32 \<Rightarrow> string" where
  "hex32 w = map (\<lambda>k. hex_digit (unat (drop_bit k w))) [28, 24, 20, 16, 12, 8, 4, 0]"

text \<open>
  A \<open>hashlib\<close> hasher object is its accumulated input: \<open>update\<close> appends, \<open>hexdigest\<close>
  hashes what was accumulated.
\<close>

definition sha_update :: "bytes \<Rightarrow> bytes \<Rightarrow> bytes" where
  "sha_update chunk acc = acc @ chunk"

definition hexdigest :: "bytes \<Rightarrow> string" where
  "hexdigest m =
     (case sha256 m of (a, b, c, d, e, f, g, h) \<Rightarrow>
        hex32 a @ hex32 b @ hex32 c @ hex32 d @ hex32 e @ hex32 f @ hex32 g @ hex32 h)"

section \<open>The file system\<close>

text \<open>
  The host file system is one tree; an absolute path is the list of its components.  A
  directory is the list of its entries in the order \<open>os.scandir\<close> enumerates them.  An
  entry is a readable regular file with its content, a directory, a symbolic link with
  its absolute target, or anything else that \<open>open\<close> does not read: a file without read
  permission, a socket, a FIFO, each with what \<open>open\<close> does on it.
\<close>

type_synonym path = "string list"

datatype node = File bytes | Dir "(string \<times> node) list" | Link path | Special stop

text \<open>
  \<open>lookup\<close> walks a path without following links (the first entry of a name wins);
  \<open>fs_set\<close> writes or removes the node at a path whose parent directory exists.
\<close>

fun lookup :: "node \<Rightarrow> path \<Rightarrow> node option"
  and lookup_in :: "(string \<times> node) list \<Rightarrow> string \<Rightarrow> path \<Rightarrow> node option" where
  "lookup n [] = Some n"
| "lookup (Dir es) (d # p) = lookup_in es d p"
| "lookup (File b) (d # p) = None"
| "lookup (Link t) (d # p) = None"
| "lookup (Special s) (d # p) = None"
| "lookup_in [] d p = None"
| "lookup_in ((n, c) # es) d p = (if n = d then lookup c p else lookup_in es d p)"

fun fs_set :: "path \<Rightarrow> node option \<Rightarrow> node \<Rightarrow> node"
  and fs_set_in :: "string \<Rightarrow> path \<Rightarrow> node option \<Rightarrow> (string \<times> node) list
                      \<Rightarrow> (string \<times> node) list" where
  "fs_set p v (Dir es) =
     (case p of [] \<Rightarrow> (case v of Some x \<Rightarrow> x | None \<Rightarrow> Dir es)
      | d # p' \<Rightarrow> Dir (fs_set_in d p' v es))"
| "fs_set p v (File b) = (case p of [] \<Rightarrow> (case v of Some x \<Rightarrow> x | None \<Rightarrow> File b) | _ \<Rightarrow> File b)"
| "fs_set p v (Link t) = (case p of [] \<Rightarrow> (case v of Some x \<Rightarrow> x | None \<Rightarrow> Link t) | _ \<Rightarrow> Link t)"
| "fs_set p v (Special s) =
     (case p of [] \<Rightarrow> (case v of Some x \<Rightarrow> x | None \<Rightarrow> Special s) | _ \<Rightarrow> Special s)"
| "fs_set_in d p' v [] = (case p' of [] \<Rightarrow> (case v of Some x \<Rightarrow> [(d, x)] | None \<Rightarrow> []) | _ \<Rightarrow> [])"
| "fs_set_in d p' v ((n, c) # es) =
     (if n = d
      then (case p' of
              [] \<Rightarrow> (case v of Some x \<Rightarrow> (n, x) # es
                      | None \<Rightarrow> filter (\<lambda>(m, _). m \<noteq> d) es)
            | _ \<Rightarrow> (n, fs_set p' v c) # es)
      else (n, c) # fs_set_in d p' v es)"

definition is_dir :: "node \<Rightarrow> path \<Rightarrow> bool" where
  "is_dir fs p = (case lookup fs p of Some (Dir _) \<Rightarrow> True | _ \<Rightarrow> False)"

text \<open>
  Path resolution as the kernel does it: \<open>resolve n fs cur rest\<close> walks the components
  \<open>rest\<close> from the resolved location \<open>cur\<close>, restarting from the root at every link, and
  gives up after \<open>n\<close> links.  \<open>stat\<close> is the node a path leads to, links followed.
\<close>

fun resolve :: "nat \<Rightarrow> node \<Rightarrow> path \<Rightarrow> path \<Rightarrow> path option" where
  "resolve n fs cur [] = Some cur"
| "resolve 0 fs cur (d # rest) =
     (case lookup fs (cur @ [d]) of
        None \<Rightarrow> None
      | Some c \<Rightarrow> (case c of Link tgt \<Rightarrow> None | _ \<Rightarrow> resolve 0 fs (cur @ [d]) rest))"
| "resolve (Suc m) fs cur (d # rest) =
     (case lookup fs (cur @ [d]) of
        None \<Rightarrow> None
      | Some c \<Rightarrow> (case c of Link tgt \<Rightarrow> resolve m fs [] (tgt @ rest)
                   | _ \<Rightarrow> resolve (Suc m) fs (cur @ [d]) rest))"

definition stat :: "node \<Rightarrow> path \<Rightarrow> node option" where
  "stat fs p = (case resolve 40 fs [] p of None \<Rightarrow> None | Some q \<Rightarrow> lookup fs q)"

text \<open>
  \<open>open(path, 'rb')\<close> and reading to the end, on an entry of a directory: the content of a
  regular file, of the file a link leads to, or no value.
\<close>

definition open_read :: "node \<Rightarrow> node \<Rightarrow> stop + bytes" where
  "open_read fs c =
     (case c of
        File b \<Rightarrow> Inr b
      | Dir _ \<Rightarrow> Inl (Raised IsADirectoryError)
      | Special s \<Rightarrow> Inl s
      | Link tgt \<Rightarrow>
          (case stat fs tgt of
             Some (File b) \<Rightarrow> Inr b
           | Some (Special s) \<Rightarrow> Inl s
           | Some (Dir _) \<Rightarrow> Inl (Raised IsADirectoryError)
           | _ \<Rightarrow> Inl (Raised FileNotFoundError)))"

text \<open>\<open>hash_file\<close>: open the file and read it in chunks of 8192 bytes until an empty read.\<close>

definition hash_file :: "node \<Rightarrow> node \<Rightarrow> stop + string" where
  "hash_file fs c =
     and_then (open_read fs c) (\<lambda>content. Inr (hexdigest (fold sha_update (chunks 8192 content) [])))"

section \<open>The walk\<close>

text \<open>
  \<open>os.walk(directory, topdown=True)\<close> without \<open>followlinks\<close>: one triple (root, dirs,
  files) per directory, the top first, then the subdirectories in enumeration order.  An
  entry counts as a directory when it is one or is a link that leads to one; every other
  entry is listed under files.  Links to directories are listed but not entered.  The
  root is kept relative to the walked directory, and each file name carries its entry,
  which a later \<open>open\<close> reads.  Walking something that is not a directory yields nothing.
\<close>

definition entry_is_dir :: "node \<Rightarrow> node \<Rightarrow> bool" where
  "entry_is_dir fs c =
     (case c of
        Dir _ \<Rightarrow> True
      | Link tgt \<Rightarrow> (case stat fs tgt of Some (Dir _) \<Rightarrow> True | _ \<Rightarrow> False)
      | _ \<Rightarrow> False)"

definition dir_names :: "node \<Rightarrow> (string \<times> node) list \<Rightarrow> string list" where
  "dir_names fs es = map fst (filter (\<lambda>(n, c). entry_is_dir fs c) es)"

definition file_items :: "node \<Rightarrow> (string \<times> node) list \<Rightarrow> (string \<times> node) list" where
  "file_items fs es = filter (\<lambda>(n, c). \<not> entry_is_dir fs c) es"

fun walk :: "node \<Rightarrow> path \<Rightarrow> node \<Rightarrow> (path \<times> string list \<times> (string \<times> node) list) list"
  and walk_entries :: "node \<Rightarrow> path \<Rightarrow> (string \<times> node) list
                        \<Rightarrow> (path \<times> string list \<times> (string \<times> node) list) list" where
  "walk fs root (Dir es) = (root, dir_names fs es, file_items fs es) # walk_entries fs root es"
| "walk fs root (File b) = []"
| "walk fs root (Link t) = []"
| "walk fs root (Special s) = []"
| "walk_entries fs root [] = []"
| "walk_entries fs root ((n, c) # es) = walk fs (root @ [n]) c @ walk_entries fs root es"

text \<open>What a walk of path \<open>p\<close> traverses; a missing path is walked like a non-directory.\<close>

definition walk_target :: "node \<Rightarrow> path \<Rightarrow> node" where
  "walk_target fs p = (case stat fs p of Some n \<Rightarrow> n | None \<Rightarrow> File [])"

fun join :: "string list \<Rightarrow> string" where
  "join [] = []"
| "join [c] = c"
| "join (c # cs) = c @ ''/'' @ join cs"

definition rel :: "path \<Rightarrow> string \<Rightarrow> string" where
  "rel root name = join (root @ [name])"

definition path_str :: "path \<Rightarrow> string" where
  "path_str p = ''/'' @ join p"

definition path_name :: "path \<Rightarrow> string" where
  "path_name p = (if p = [] then [] else last p)"

definition replace_slash :: "string \<Rightarrow> string" where
  "replace_slash s = map (\<lambda>c. if c = CHR ''/'' then CHR ''_'' else c) s"

section \<open>Fingerprints\<close>

text \<open>
  \<open>merkle_hash\<close>: the first loop collects, directory by directory, the files in sorted
  order with their digests and then the directories in sorted order with the empty
  digest; an \<open>open\<close> that fails ends it.  The second loop feeds the sorted entries to one
  hasher; a name that does not encode ends it.
\<close>

definition merkle_entries :: "node \<Rightarrow> node \<Rightarrow> stop + (string \<times> string) list" where
  "merkle_entries fs directory =
     fold (\<lambda>(root, dirs, files) acc.
             and_then
               (fold (\<lambda>(name, c) a.
                        and_then a (\<lambda>entries.
                        and_then (hash_file fs c) (\<lambda>h. Inr (entries @ [(rel root name, h)]))))
                     (sort_key fst files) acc)
               (\<lambda>entries. Inr (entries @ map (\<lambda>name. (rel root name @ ''/'', [])) (sort dirs))))
          (walk fs [] directory) (Inr [])"

definition merkle_hash :: "node \<Rightarrow> node \<Rightarrow> stop + string" where
  "merkle_hash fs directory =
     and_then (merkle_entries fs directory) (\<lambda>entries.
     and_then (fold (\<lambda>(name, digest) acc.
                       and_then acc (\<lambda>sha.
                       and_then (encode name) (\<lambda>nb.
                       and_then (encode digest) (\<lambda>db. Inr (sha_update db (sha_update nb sha))))))
                    (sort entries) (Inr []))
              (\<lambda>sha. Inr (hexdigest sha)))"

text \<open>
  A Python \<open>dict\<close> is an association list with distinct keys in insertion order;
  \<open>d[k] = v\<close> is \<open>AList.update k v d\<close> (an existing key keeps its position) and
  \<open>d.get(k)\<close> is \<open>map_of d k\<close>.
\<close>

type_synonym ('k, 'v) dict = "('k \<times> 'v) list"

definition compute_initial_hashes :: "node \<Rightarrow> path list \<Rightarrow> stop + (string, string) dict" where
  "compute_initial_hashes fs paths =
     fold (\<lambda>p acc.
             and_then acc (\<lambda>d.
             and_then (merkle_hash fs (walk_target fs p)) (\<lambda>h. Inr (AList.update (path_str p) h d))))
          paths (Inr [])"

definition compute_final_hashes :: "node \<Rightarrow> path list \<Rightarrow> stop + (string, string) dict" where
  "compute_final_hashes fs paths = compute_initial_hashes fs paths"

definition diff_hashes :: "(string, string) dict \<Rightarrow> (string, string) dict \<Rightarrow> string list" where
  "diff_hashes initial final =
     map fst (filter (\<lambda>(path, start_hash). Some start_hash \<noteq> map_of final path) initial)"

section \<open>Snapshots and their difference\<close>

definition snapshot_directory :: "node \<Rightarrow> node \<Rightarrow> stop + (string, string) dict" where
  "snapshot_directory fs directory =
     fold (\<lambda>(root, dirs, files) acc.
             fold (\<lambda>(name, c) a.
                     and_then a (\<lambda>mapping.
                     and_then (hash_file fs c) (\<lambda>h. Inr (AList.update (rel root name) h mapping))))
                  files acc)
          (walk fs [] directory) (Inr [])"

definition snapshot_directories ::
  "node \<Rightarrow> path list \<Rightarrow> stop + (string, (string, string) dict) dict" where
  "snapshot_directories fs paths =
     fold (\<lambda>p acc.
             and_then acc (\<lambda>d.
             and_then (snapshot_directory fs (walk_target fs p))
                      (\<lambda>s. Inr (AList.update (path_str p) s d))))
          paths (Inr [])"

text \<open>
  The body of the loop of \<open>diff_snapshots\<close> for one root.  The source iterates the set
  \<open>end.keys() - start.keys()\<close>, whose order Python leaves open; the model lists it in the
  insertion order of \<open>end\<close>, and the statements below count records, so they hold for
  every order.
\<close>

definition changed_files :: "(string, string) dict \<Rightarrow> (string, string) dict \<Rightarrow> string list" where
  "changed_files start end =
     concat (map (\<lambda>(file, digest).
                    case map_of end file of
                      None \<Rightarrow> [''Removed: '' @ file]
                    | Some d \<Rightarrow> if d \<noteq> digest then [''Modified: '' @ file] else [])
                 start)
     @ map (\<lambda>file. ''Added: '' @ file) (filter (\<lambda>file. map_of start file = None) (map fst end))"

definition diff_snapshots ::
  "(string, (string, string) dict) dict \<Rightarrow> (string, (string, string) dict) dict
     \<Rightarrow> (string, string list) dict" where
  "diff_snapshots initial final =
     fold (\<lambda>(path, start) result.
             let end = (case map_of final path of None \<Rightarrow> [] | Some e \<Rightarrow> e);
                 changed = changed_files start end
             in if changed \<noteq> [] then AList.update path changed result else result)
          initial []"

section \<open>The world, the environment and outcomes of a call\<close>

text \<open>
  The world is what the program can change: the file system, the two output streams,
  the log of temporary directories \<open>mkdtemp\<close> created and the log of command lines
  handed to \<open>subprocess\<close>.  The environment is what the program cannot decide: where
  temporary directories go and which random names are drawn, which programs can be
  launched, the exit status of \<open>rsync\<close> for a source root and what a failing \<open>rsync\<close> has
  copied by then, whether \<open>rm -rf\<close> succeeds for a path, whether standard output takes
  what is printed, and the behaviour of the container runtime (it raises, never returns,
  or changes the file system and returns an exit code).
\<close>

record world =
  fs :: node
  stdout :: "string list"
  stderr :: "string list"
  created :: "path list"
  procs :: "string list list"

record env =
  tmpdir :: path
  names :: "string list"
  launchable :: "string \<Rightarrow> bool"
  rsync_exit :: "path \<Rightarrow> int"
  rsync_partial :: "path \<Rightarrow> (string \<times> node) list \<Rightarrow> (string \<times> node) list"
  rm_ok :: "path \<Rightarrow> bool"
  stdout_ok :: bool
  container :: "string list \<Rightarrow> node \<Rightarrow> stop + node \<times> int"

text \<open>
  A call ends by raising, by returning a value, or not at all; each time the world it
  has reached is kept.
\<close>

datatype 'a result = Raise exn world | Return 'a world | Hang world

fun world_of :: "'a result \<Rightarrow> world" where
  "world_of (Raise x w) = w"
| "world_of (Return v w) = w"
| "world_of (Hang w) = w"

definition after :: "'a result \<Rightarrow> ('a \<Rightarrow> world \<Rightarrow> 'b result) \<Rightarrow> 'b result" where
  "after r f = (case r of Raise x w \<Rightarrow> Raise x w | Hang w \<Rightarrow> Hang w | Return v w \<Rightarrow> f v w)"

definition check :: "stop + 'a \<Rightarrow> world \<Rightarrow> 'a result" where
  "check r w = (case r of Inl (Raised x) \<Rightarrow> Raise x w | Inl Blocked \<Rightarrow> Hang w | Inr v \<Rightarrow> Return v w)"

text \<open>\<open>print\<close> to standard output: a closed pipe raises \<open>BrokenPipeError\<close>.\<close>

definition print_out :: "env \<Rightarrow> string list \<Rightarrow> world \<Rightarrow> unit result" where
  "print_out e lines w =
     (if stdout_ok e then Return () (w\<lparr>stdout := stdout w @ lines\<rparr>) else Raise BrokenPipeError w)"

section \<open>Overlays\<close>

text \<open>
  \<open>tempfile.mkdtemp(prefix=...)\<close>: try the drawn names in turn, create the first one that
  does not exist yet; \<open>FileExistsError\<close> when all of them exist.
\<close>

definition mkdtemp :: "env \<Rightarrow> string \<Rightarrow> world \<Rightarrow> path result" where
  "mkdtemp e pfx w =
     (case lookup (fs w) (tmpdir e) of
        Some (Dir es) \<Rightarrow>
          (case find (\<lambda>s. map_of es (pfx @ s) = None) (names e) of
             None \<Rightarrow> Raise FileExistsError w
           | Some s \<Rightarrow>
               let t = tmpdir e @ [pfx @ s]
               in Return t (w\<lparr>fs := fs_set t (Some (Dir [])) (fs w), created := created w @ [t]\<rparr>))
      | _ \<Rightarrow> Raise FileNotFoundError w)"

text \<open>
  \<open>subprocess.check_call(['rsync', '-a', f'{p}/', f'{tmp}/'])\<close>.  When \<open>rsync\<close> cannot be
  launched the call raises \<open>FileNotFoundError\<close>.  With exit status 0 the destination
  holds the entries of the source directory, links copied as links; with any other
  status the destination holds what had been copied by then and the call raises
  \<open>CalledProcessError\<close>.
\<close>

definition rsync :: "env \<Rightarrow> path \<Rightarrow> path \<Rightarrow> world \<Rightarrow> unit result" where
  "rsync e p tmp w =
     (if \<not> launchable e ''rsync'' then Raise FileNotFoundError w
      else
        let w1 = w\<lparr>procs := procs w @ [[''rsync'', ''-a'', path_str p @ ''/'', path_str tmp @ ''/'']]\<rparr>
        in if rsync_exit e p \<noteq> 0
           then Raise (CalledProcessError (rsync_exit e p))
                  (w1\<lparr>fs := (case lookup (fs w1) p of
                                Some (Dir es) \<Rightarrow> fs_set tmp (Some (Dir (rsync_partial e p es))) (fs w1)
                              | _ \<Rightarrow> fs w1)\<rparr>)
           else Return () (w1\<lparr>fs := (case lookup (fs w1) p of
                                       Some (Dir es) \<Rightarrow> fs_set tmp (Some (Dir es)) (fs w1)
                                     | _ \<Rightarrow> fs w1)\<rparr>))"

fun prepare_loop :: "env \<Rightarrow> path list \<Rightarrow> (path, path) dict \<Rightarrow> world \<Rightarrow> (path, path) dict result" where
  "prepare_loop e [] mapping w = Return mapping w"
| "prepare_loop e (p # ps) mapping w =
     after (mkdtemp e (replace_slash (path_name p) @ ''_overlay_'') w) (\<lambda>tmp w1.
     after (rsync e p tmp w1) (\<lambda>_ w2.
     prepare_loop e ps (AList.update p tmp mapping) w2))"

definition prepare_overlays :: "env \<Rightarrow> path list \<Rightarrow> world \<Rightarrow> (path, path) dict result" where
  "prepare_overlays e paths w = prepare_loop e paths [] w"

text \<open>
  \<open>subprocess.run(['rm', '-rf', str(overlay)], check=False)\<close> for every value of the
  mapping: the exit status is ignored, but \<open>rm\<close> must be there to be launched.
\<close>

fun cleanup_loop :: "env \<Rightarrow> path list \<Rightarrow> world \<Rightarrow> unit result" where
  "cleanup_loop e [] w = Return () w"
| "cleanup_loop e (overlay # rest) w =
     (if \<not> launchable e ''rm'' then Raise FileNotFoundError w
      else cleanup_loop e rest
             (w\<lparr>fs := (if rm_ok e overlay then fs_set overlay None (fs w) else fs w),
                procs := procs w @ [[''rm'', ''-rf'', path_str overlay]]\<rparr>))"

definition cleanup_overlays :: "env \<Rightarrow> (path, path) dict \<Rightarrow> world \<Rightarrow> unit result" where
  "cleanup_overlays e mapping w = cleanup_loop e (map snd mapping) w"

definition build_docker_cmd :: "string \<Rightarrow> path list \<Rightarrow> string list \<Rightarrow> string \<Rightarrow> string list" where
  "build_docker_cmd img overlay_paths cmd usr =
     [''docker'', ''run'', ''--rm'', ''-it'', ''--runtime=runsc'', ''--network'', ''none'',
      ''--read-only'', ''--tmpfs'', ''/tmp'', ''--cap-drop'', ''ALL'',
      ''--security-opt'', ''no-new-privileges'', ''--pids-limit'', ''64'', ''--memory'', ''512m'']
     @ concat (map (\<lambda>p. [''-v'', path_str p @ '':'' @ path_str p @ '':rw'']) overlay_paths)
     @ [''--user'', usr] @ [img] @ cmd"

definition space_join :: "string list \<Rightarrow> string" where
  "space_join xs = concat (case xs of [] \<Rightarrow> [] | x # r \<Rightarrow> x # map (\<lambda>y. '' '' @ y) r)"

definition run_container :: "env \<Rightarrow> string list \<Rightarrow> world \<Rightarrow> int result" where
  "run_container e cmd w =
     after (print_out e [''Launching sandbox: '' @ space_join cmd] w) (\<lambda>_ w1.
       let w2 = w1\<lparr>procs := procs w1 @ [cmd]\<rparr>
       in (case container e cmd (fs w2) of
             Inl s \<Rightarrow> check (Inl s) w2
           | Inr (fs', code) \<Rightarrow> Return code (w2\<lparr>fs := fs'\<rparr>)))"

section \<open>The session\<close>

record args =
  image_name :: string
  edit :: "path list"
  user :: string
  command :: "string list"

definition report :: "string list \<Rightarrow> (string, string list) dict \<Rightarrow> string list" where
  "report changes file_changes =
     (if changes \<noteq> []
      then [''Directories changed during session:'']
           @ map (\<lambda>c. '' - '' @ c) changes
           @ concat (map (\<lambda>(path, files). map (\<lambda>f. ''   '' @ path @ ''/'' @ f) files) file_changes)
      else [''No changes detected.''])"

text \<open>
  \<open>main\<close> on the parsed arguments, the editable paths already resolved.  A value
  \<open>Return code w\<close> is the \<open>return code\<close> of the source in world \<open>w\<close>; \<open>Raise x w\<close> is the
  exception \<open>x\<close> leaving \<open>main\<close> in world \<open>w\<close>; \<open>Hang w\<close> is \<open>main\<close> never returning.
  Nothing in \<open>main\<close> catches an exception, so whatever a step raises leaves \<open>main\<close> at once.
\<close>

definition main :: "args \<Rightarrow> env \<Rightarrow> world \<Rightarrow> int result" where
  "main a e w =
     (case find (\<lambda>p. \<not> is_dir (fs w) p) (edit a) of
        Some p \<Rightarrow>
          Return 1 (w\<lparr>stderr := stderr w @ [''Editable path '' @ path_str p
                                              @ '' does not exist or is not a directory.'']\<rparr>)
      | None \<Rightarrow>
          after (prepare_overlays e (edit a) w) (\<lambda>overlays w1.
          let overlay_paths = map snd overlays
          in after (check (compute_initial_hashes (fs w1) overlay_paths) w1) (\<lambda>initial_hashes w1.
             after (check (snapshot_directories (fs w1) overlay_paths) w1) (\<lambda>initial_snapshots w1.
             after (run_container e (build_docker_cmd (image_name a) overlay_paths (command a) (user a)) w1)
               (\<lambda>ret w2.
             after (check (compute_final_hashes (fs w2) overlay_paths) w2) (\<lambda>final_hashes w2.
             let changes = diff_hashes initial_hashes final_hashes
             in after (check (snapshot_directories (fs w2) overlay_paths) w2) (\<lambda>final_snapshots w2.
                let file_changes = diff_snapshots initial_snapshots final_snapshots
                in after (cleanup_overlays e overlays w2) (\<lambda>_ w3.
                   after (print_out e (report changes file_changes) w3) (\<lambda>_ w4.
                   Return ret w4)))))))))"

section \<open>A small host used for concrete sessions\<close>

definition demo_fs :: node where
  "demo_fs = Dir [(''home'', Dir [(''proj'', Dir [(''file.txt'', File ''one'')])]), (''tmp'', Dir [])]"

definition demo_world :: world where
  "demo_world = \<lparr>fs = demo_fs, stdout = [], stderr = [], created = [], procs = []\<rparr>"

definition demo_env :: "(path \<Rightarrow> int) \<Rightarrow> (string list \<Rightarrow> node \<Rightarrow> stop + node \<times> int) \<Rightarrow> env" where
  "demo_env r c = \<lparr>tmpdir = [''tmp''], names = [''abc123'', ''def456''], launchable = (\<lambda>_. True),
                    rsync_exit = r, rsync_partial = (\<lambda>_ _. []), rm_ok = (\<lambda>_. True),
                    stdout_ok = True, container = c\<rparr>"

definition demo_args :: "path list \<Rightarrow> args" where
  "demo_args ps = \<lparr>image_name = ''img'', edit = ps, user = ''dev'', command = [''/bin/bash'']\<rparr>"

section \<open>Trees whose walk reads cleanly\<close>

text \<open>
  \<open>can_open\<close>: \<open>open\<close> and the reads succeed on an entry.  \<open>readable fs d\<close>: in the walk of
  \<open>d\<close> every entry listed under files can be opened and every relative path the
  fingerprint encodes is well-formed UTF-8.  \<open>digest_of\<close> is the digest \<open>hash_file\<close> returns
  for an entry that can be opened; \<open>entries_of\<close> and \<open>snapshot_of\<close> are the entry list and
  the mapping the two loops over a walk build when no \<open>open\<close> fails.
\<close>

definition can_open :: "node \<Rightarrow> node \<Rightarrow> bool" where
  "can_open f c = (case open_read f c of Inr b \<Rightarrow> True | Inl s \<Rightarrow> False)"

definition readable :: "node \<Rightarrow> node \<Rightarrow> bool" where
  "readable f d =
     list_all (\<lambda>(root, dirs, files).
                 list_all (\<lambda>(name, c). can_open f c \<and> utf8_ok (rel root name)) files
                 \<and> list_all (\<lambda>name. utf8_ok (rel root name @ ''/'')) dirs)
              (walk f [] d)"

definition digest_of :: "node \<Rightarrow> node \<Rightarrow> string" where
  "digest_of f c = (case hash_file f c of Inr h \<Rightarrow> h | Inl s \<Rightarrow> [])"

definition entries_of ::
  "node \<Rightarrow> (path \<times> string list \<times> (string \<times> node) list) list \<Rightarrow> (string \<times> string) list" where
  "entries_of f ts =
     concat (map (\<lambda>(root, dirs, files).
                    map (\<lambda>(name, c). (rel root name, digest_of f c)) (sort_key fst files)
                    @ map (\<lambda>name. (rel root name @ ''/'', [])) (sort dirs)) ts)"

definition snapshot_of ::
  "node \<Rightarrow> (path \<times> string list \<times> (string \<times> node) list) list \<Rightarrow> (string, string) dict" where
  "snapshot_of f ts =
     fold (\<lambda>(root, dirs, files).
             fold (\<lambda>(name, c). AList.update (rel root name) (digest_of f c)) files) ts []"
section \<open>Mutations by a process\<close>

text \<open>
  A process that writes, creates or removes something names it by a path, and the kernel
  resolves that path: links in the directory part are followed; a write also follows a
  link in the last component, a removal takes away the entry itself.  \<open>target\<close> is the
  place a mutation lands on (none when the call fails), \<open>mutate\<close> applies one mutation
  and \<open>run_writes\<close> a sequence of them.  \<open>inside ts f ws\<close>: each mutation of the sequence
  \<open>ws\<close>, started in \<open>f\<close>, lands at or below one of the paths \<open>ts\<close>.
\<close>

definition entry_loc :: "node \<Rightarrow> path \<Rightarrow> path option" where
  "entry_loc f q =
     (if q = [] then None
      else (case resolve 40 f [] (butlast q) of None \<Rightarrow> None | Some d \<Rightarrow> Some (d @ [last q])))"

definition target :: "node \<Rightarrow> path \<Rightarrow> node option \<Rightarrow> path option" where
  "target f q v =
     (case v of
        None \<Rightarrow> entry_loc f q
      | Some x \<Rightarrow>
          (case resolve 40 f [] q of
             Some r \<Rightarrow> Some r
           | None \<Rightarrow> (case entry_loc f q of
                        Some r \<Rightarrow> if lookup f r = None then Some r else None
                      | None \<Rightarrow> None)))"

definition mutate :: "node \<Rightarrow> path \<Rightarrow> node option \<Rightarrow> node" where
  "mutate f q v = (case target f q v of Some r \<Rightarrow> fs_set r v f | None \<Rightarrow> f)"

fun run_writes :: "node \<Rightarrow> (path \<times> node option) list \<Rightarrow> node" where
  "run_writes f [] = f"
| "run_writes f ((q, v) # ws) = run_writes (mutate f q v) ws"

fun inside :: "path list \<Rightarrow> node \<Rightarrow> (path \<times> node option) list \<Rightarrow> bool" where
  "inside ts f [] = True"
| "inside ts f ((q, v) # ws) =
     ((case target f q v of Some r \<Rightarrow> list_ex (\<lambda>t. prefix t r) ts | None \<Rightarrow> True)
      \<and> inside ts (mutate f q v) ws)"

text \<open>A host whose project directory holds a link to one of its own files.\<close>

definition link_world :: world where
  "link_world =
     \<lparr>fs = Dir [(''home'', Dir [(''proj'', Dir [(''file.txt'', File ''one''),
                                                (''lnk'', Link [''home'', ''proj'', ''file.txt''])])]),
                (''tmp'', Dir [])],
      stdout = [], stderr = [], created = [], procs = []\<rparr>"
section \<open>What a walk sees\<close>


definition dir_entries :: "node \<Rightarrow> node \<Rightarrow> string list" where
  "dir_entries f d =
     concat (map (\<lambda>(root, dirs, files). map (\<lambda>name. rel root name) dirs) (walk f [] d))"



section \<open>Classification of changes\<close>

lemma count_changed_removed:
  assumes "distinct (map fst start)"
  shows "count_list (changed_files start end) (''Removed: '' @ f)
           = (if map_of start f \<noteq> None \<and> map_of end f = None then 1 else 0)"
proof -
  have first: "count_list (concat (map (\<lambda>(file, digest).
                    case map_of end file of
                      None \<Rightarrow> [''Removed: '' @ file]
                    | Some d \<Rightarrow> if d \<noteq> digest then [''Modified: '' @ file] else []) start))
              (''Removed: '' @ f)
           = (if f \<in> fst ` set start \<and> map_of end f = None then 1 else 0)"
    using assms by (induction start) (auto split: option.splits simp: rev_image_eqI)
  have second: "count_list (map (\<lambda>file. ''Added: '' @ file) ks) (''Removed: '' @ f) = 0" for ks
    by (induction ks) auto
  show ?thesis
    unfolding changed_files_def count_list_append first second
    by (simp add: map_of_eq_None_iff)
qed

lemma count_changed_modified:
  assumes "distinct (map fst start)"
  shows "count_list (changed_files start end) (''Modified: '' @ f)
           = (case map_of start f of
                None \<Rightarrow> 0
              | Some d \<Rightarrow> (case map_of end f of
                            None \<Rightarrow> 0
                          | Some d' \<Rightarrow> if d' \<noteq> d then 1 else 0))"
proof -
  have first: "count_list (concat (map (\<lambda>(file, digest).
                    case map_of end file of
                      None \<Rightarrow> [''Removed: '' @ file]
                    | Some d \<Rightarrow> if d \<noteq> digest then [''Modified: '' @ file] else []) start))
              (''Modified: '' @ f)
           = (case map_of start f of
                None \<Rightarrow> 0
              | Some d \<Rightarrow> (case map_of end f of
                            None \<Rightarrow> 0
                          | Some d' \<Rightarrow> if d' \<noteq> d then 1 else 0))"
    using assms
  proof (induction start)
    case Nil
    show ?case by simp
  next
    case (Cons x xs)
    obtain k v where x: "x = (k, v)" by (cases x)
    from Cons.prems have d: "distinct (map fst xs)" and nk: "map_of xs k = None"
      by (auto simp: x map_of_eq_None_iff)
    show ?case
    proof (cases "k = f")
      case True
      with nk have "map_of xs f = None" by simp
      with Cons.IH [OF d] True show ?thesis
        by (simp add: x split: option.splits)
    next
      case False
      with Cons.IH [OF d] show ?thesis
        by (simp add: x split: option.splits)
    qed
  qed
  have second: "count_list (map (\<lambda>file. ''Added: '' @ file) ks) (''Modified: '' @ f) = 0" for ks
    by (induction ks) auto
  show ?thesis
    unfolding changed_files_def count_list_append first second
    by simp
qed

lemma count_changed_added:
  assumes "distinct (map fst end)"
  shows "count_list (changed_files start end) (''Added: '' @ f)
           = (if map_of start f = None \<and> map_of end f \<noteq> None then 1 else 0)"
proof -
  have first: "count_list (concat (map (\<lambda>(file, digest).
                    case map_of end file of
                      None \<Rightarrow> [''Removed: '' @ file]
                    | Some d \<Rightarrow> if d \<noteq> digest then [''Modified: '' @ file] else []) start))
              (''Added: '' @ f) = 0"
    by (induction start) (auto split: option.splits)
  have second: "distinct ks \<Longrightarrow>
      count_list (map (\<lambda>file. ''Added: '' @ file) (filter P ks)) (''Added: '' @ f)
        = (if f \<in> set ks \<and> P f then 1 else 0)" for ks P
    by (induction ks) auto
  show ?thesis
    unfolding changed_files_def count_list_append first second [OF assms]
    by (simp add: map_of_eq_None_iff)
qed

lemma map_of_diff_fold:
  assumes "distinct (map fst initial)"
  shows "map_of (fold (\<lambda>(path, start) result.
             let end = (case map_of final path of None \<Rightarrow> [] | Some e \<Rightarrow> e);
                 changed = changed_files start end
             in if changed \<noteq> [] then AList.update path changed result else result)
          initial acc) root
         = (case map_of initial root of
              None \<Rightarrow> map_of acc root
            | Some start \<Rightarrow>
                (let changed = changed_files start
                                 (case map_of final root of None \<Rightarrow> [] | Some e \<Rightarrow> e)
                 in if changed \<noteq> [] then Some changed else map_of acc root))"
  using assms
proof (induction initial arbitrary: acc)
  case Nil
  then show ?case by simp
next
  case (Cons x xs)
  obtain p st where x: "x = (p, st)" by (cases x)
  from Cons.prems have dx: "distinct (map fst xs)" and px: "map_of xs p = None"
    by (auto simp: x map_of_eq_None_iff)
  show ?case
    using Cons.IH [OF dx] px
    by (auto simp: x Let_def update_conv' split: option.splits)
qed

lemma map_of_diff_snapshots:
  assumes "distinct (map fst initial)" and "map_of initial root = Some start"
  shows "map_of (diff_snapshots initial final) root
         = (let changed = changed_files start
                            (case map_of final root of None \<Rightarrow> [] | Some e \<Rightarrow> e)
            in if changed \<noteq> [] then Some changed else None)"
  unfolding diff_snapshots_def map_of_diff_fold [OF assms(1)]
  by (simp add: assms(2) Let_def)

text \<open>
  Claim C2.  For a root of \<open>initial\<close> with start snapshot \<open>pre\<close>, compared with \<open>post\<close>
  (the root's snapshot in \<open>final\<close>, or the empty snapshot when the root is missing there):
  a path in \<open>pre\<close> but not in \<open>post\<close> has exactly one \<open>Removed\<close> record and no other; a
  path in both with different digests has exactly one \<open>Modified\<close> record and no other; a
  path in \<open>post\<close> but not in \<open>pre\<close> has exactly one \<open>Added\<close> record and no other; a path
  in both with equal digests has no record; and the result of \<open>diff_snapshots\<close> maps the
  root to its change list when that list is not empty and has no entry for it otherwise.
\<close>

theorem diff_snapshots_classification:
  assumes "distinct (map fst initial)"
    and "map_of initial root = Some pre"
    and "post = (case map_of final root of None \<Rightarrow> [] | Some e \<Rightarrow> e)"
    and "distinct (map fst pre)"
    and "distinct (map fst post)"
    and "recs = changed_files pre post"
  shows "(\<forall>f. map_of pre f \<noteq> None \<and> map_of post f = None \<longrightarrow>
            count_list recs (''Removed: '' @ f) = 1
          \<and> count_list recs (''Modified: '' @ f) = 0
          \<and> count_list recs (''Added: '' @ f) = 0)
       \<and> (\<forall>f d d'. map_of pre f = Some d \<and> map_of post f = Some d' \<and> d \<noteq> d' \<longrightarrow>
            count_list recs (''Modified: '' @ f) = 1
          \<and> count_list recs (''Removed: '' @ f) = 0
          \<and> count_list recs (''Added: '' @ f) = 0)
       \<and> (\<forall>f. map_of pre f = None \<and> map_of post f \<noteq> None \<longrightarrow>
            count_list recs (''Added: '' @ f) = 1
          \<and> count_list recs (''Removed: '' @ f) = 0
          \<and> count_list recs (''Modified: '' @ f) = 0)
       \<and> (\<forall>f d. map_of pre f = Some d \<and> map_of post f = Some d \<longrightarrow>
            count_list recs (''Removed: '' @ f) = 0
          \<and> count_list recs (''Modified: '' @ f) = 0
          \<and> count_list recs (''Added: '' @ f) = 0)
       \<and> map_of (diff_snapshots initial final) root = (if recs = [] then None else Some recs)"
proof -
  note rem = count_changed_removed [OF assms(4), of post]
  note mod = count_changed_modified [OF assms(4), of post]
  note add = count_changed_added [OF assms(5), of pre]
  have removed: "\<forall>f. map_of pre f \<noteq> None \<and> map_of post f = None \<longrightarrow>
            count_list recs (''Removed: '' @ f) = 1
          \<and> count_list recs (''Modified: '' @ f) = 0
          \<and> count_list recs (''Added: '' @ f) = 0"
    unfolding assms(6) rem mod add by auto
  have modified: "\<forall>f d d'. map_of pre f = Some d \<and> map_of post f = Some d' \<and> d \<noteq> d' \<longrightarrow>
            count_list recs (''Modified: '' @ f) = 1
          \<and> count_list recs (''Removed: '' @ f) = 0
          \<and> count_list recs (''Added: '' @ f) = 0"
    unfolding assms(6) rem mod add by auto
  have added: "\<forall>f. map_of pre f = None \<and> map_of post f \<noteq> None \<longrightarrow>
            count_list recs (''Added: '' @ f) = 1
          \<and> count_list recs (''Removed: '' @ f) = 0
          \<and> count_list recs (''Modified: '' @ f) = 0"
    unfolding assms(6) rem mod add by auto
  have same: "\<forall>f d. map_of pre f = Some d \<and> map_of post f = Some d \<longrightarrow>
            count_list recs (''Removed: '' @ f) = 0
          \<and> count_list recs (''Modified: '' @ f) = 0
          \<and> count_list recs (''Added: '' @ f) = 0"
    unfolding assms(6) rem mod add by auto
  have result: "map_of (diff_snapshots initial final) root = (if recs = [] then None else Some recs)"
    unfolding map_of_diff_snapshots [OF assms(1) assms(2)] assms(6) assms(3)
    by (simp add: Let_def)
  show ?thesis
    by (intro conjI) (rule removed, rule modified, rule added, rule same, rule result)
qed

theorem diff_snapshots_classification_witness:
  "count_list (changed_files [(''a'', ''1''), (''b'', ''2''), (''c'', ''3'')]
                             [(''b'', ''9''), (''c'', ''3''), (''d'', ''4'')]) ''Removed: a'' = 1
   \<and> count_list (changed_files [(''a'', ''1''), (''b'', ''2''), (''c'', ''3'')]
                             [(''b'', ''9''), (''c'', ''3''), (''d'', ''4'')]) ''Modified: b'' = 1
   \<and> count_list (changed_files [(''a'', ''1''), (''b'', ''2''), (''c'', ''3'')]
                             [(''b'', ''9''), (''c'', ''3''), (''d'', ''4'')]) ''Added: d'' = 1
   \<and> count_list (changed_files [(''a'', ''1''), (''b'', ''2''), (''c'', ''3'')]
                             [(''b'', ''9''), (''c'', ''3''), (''d'', ''4'')]) ''Modified: c'' = 0
   \<and> map_of (diff_snapshots
               [(''/r'', [(''a'', ''1''), (''b'', ''2''), (''c'', ''3'')]), (''/s'', [(''k'', ''5'')])]
               [(''/r'', [(''b'', ''9''), (''c'', ''3''), (''d'', ''4'')]), (''/s'', [(''k'', ''5'')])])
        ''/r''
      = Some [''Removed: a'', ''Modified: b'', ''Added: d'']
   \<and> map_of (diff_snapshots
               [(''/r'', [(''a'', ''1''), (''b'', ''2''), (''c'', ''3'')]), (''/s'', [(''k'', ''5'')])]
               [(''/r'', [(''b'', ''9''), (''c'', ''3''), (''d'', ''4'')]), (''/s'', [(''k'', ''5'')])])
        ''/s''
      = None"
proof -
  let ?pre = "[(''a'', ''1''), (''b'', ''2''), (''c'', ''3'')]"
  let ?post = "[(''b'', ''9''), (''c'', ''3''), (''d'', ''4'')]"
  let ?k = "[(''k'', ''5'')]"
  let ?I = "[(''/r'', ?pre), (''/s'', ?k)]"
  let ?F = "[(''/r'', ?post), (''/s'', ?k)]"
  have r: "changed_files ?pre ?post = [''Removed: a'', ''Modified: b'', ''Added: d'']"
    by (simp add: changed_files_def)
  have s: "changed_files ?k ?k = []"
    by (simp add: changed_files_def)
  have dI: "distinct (map fst ?I)" by simp
  have lr: "map_of ?I ''/r'' = Some ?pre" by simp
  have fr: "?post = (case map_of ?F ''/r'' of None \<Rightarrow> [] | Some e \<Rightarrow> e)" by simp
  have dpre: "distinct (map fst ?pre)" by simp
  have dpost: "distinct (map fst ?post)" by simp
  note R = diff_snapshots_classification [OF dI lr fr dpre dpost refl]
  have ls: "map_of ?I ''/s'' = Some ?k" by simp
  have fs: "?k = (case map_of ?F ''/s'' of None \<Rightarrow> [] | Some e \<Rightarrow> e)" by simp
  have dk: "distinct (map fst ?k)" by simp
  note S = diff_snapshots_classification [OF dI ls fs dk dk refl]
  have 1: "count_list (changed_files ?pre ?post) ''Removed: a'' = 1"
    using R [THEN conjunct1, THEN spec, of "''a''"] by simp
  have 2: "count_list (changed_files ?pre ?post) ''Modified: b'' = 1"
    using R [THEN conjunct2, THEN conjunct1, THEN spec, of "''b''"] by simp
  have 3: "count_list (changed_files ?pre ?post) ''Added: d'' = 1"
    using R [THEN conjunct2, THEN conjunct2, THEN conjunct1, THEN spec, of "''d''"] by simp
  have 4: "count_list (changed_files ?pre ?post) ''Modified: c'' = 0"
    using R [THEN conjunct2, THEN conjunct2, THEN conjunct2, THEN conjunct1, THEN spec, of "''c''"]
    by simp
  have 5: "map_of (diff_snapshots ?I ?F) ''/r''
             = Some [''Removed: a'', ''Modified: b'', ''Added: d'']"
    using R [THEN conjunct2, THEN conjunct2, THEN conjunct2, THEN conjunct2] by (simp add: r)
  have 6: "map_of (diff_snapshots ?I ?F) ''/s'' = None"
    using S [THEN conjunct2, THEN conjunct2, THEN conjunct2, THEN conjunct2] by (simp add: s)
  show ?thesis
    by (intro conjI) (rule 1, rule 2, rule 3, rule 4, rule 5, rule 6)
qed

section \<open>Validation\<close>

lemma demo_prepare:
  "prepare_overlays (demo_env (\<lambda>_. 0) c) [[''home'', ''proj'']] demo_world
     = Return [([''home'', ''proj''], [''tmp'', ''proj_overlay_abc123''])]
         \<lparr>fs = Dir [(''home'', Dir [(''proj'', Dir [(''file.txt'', File ''one'')])]),
                    (''tmp'', Dir [(''proj_overlay_abc123'', Dir [(''file.txt'', File ''one'')])])],
          stdout = [], stderr = [], created = [[''tmp'', ''proj_overlay_abc123'']],
          procs = [[''rsync'', ''-a'', ''/home/proj/'', ''/tmp/proj_overlay_abc123/'']]\<rparr>"
  by (simp add: prepare_overlays_def mkdtemp_def rsync_def demo_env_def demo_world_def demo_fs_def
      path_name_def replace_slash_def path_str_def Let_def after_def)

lemma demo_valid:
  "find (\<lambda>p. \<not> is_dir (fs demo_world) p) (edit (demo_args [[''home'', ''proj'']])) = None"
  by (simp add: demo_args_def demo_world_def demo_fs_def is_dir_def)

text \<open>
  Claim C5.  When some requested editable path does not exist or is not a directory,
  \<open>main\<close> returns 1 in a world that differs from the initial one only by one diagnostic
  line appended to standard error, naming such a path: the file system, the log of
  created temporary directories and the log of launched commands are untouched, so no
  overlay was created and no sandbox was launched.
\<close>

theorem validation_failure:
  assumes "\<exists>p \<in> set (edit a). \<not> is_dir (fs w) p"
  shows "\<exists>p \<in> set (edit a). \<not> is_dir (fs w) p \<and>
           main a e w = Return 1 (w\<lparr>stderr := stderr w @ [''Editable path '' @ path_str p
                                              @ '' does not exist or is not a directory.'']\<rparr>)"
proof -
  from assms obtain p where f: "find (\<lambda>p. \<not> is_dir (fs w) p) (edit a) = Some p"
    by (cases "find (\<lambda>p. \<not> is_dir (fs w) p) (edit a)") (auto simp: find_None_iff)
  then have "p \<in> set (edit a)" and "\<not> is_dir (fs w) p"
    by (auto simp: find_Some_iff)
  moreover have "main a e w = Return 1 (w\<lparr>stderr := stderr w @ [''Editable path '' @ path_str p
                                              @ '' does not exist or is not a directory.'']\<rparr>)"
    unfolding main_def f by simp
  ultimately show ?thesis by blast
qed

theorem validation_failure_witness:
  "main (demo_args [[''home'', ''proj''], [''home'', ''missing'']])
        (demo_env (\<lambda>_. 0) (\<lambda>_ f. Inr (f, 0))) demo_world
     = Return 1 (demo_world\<lparr>stderr :=
                   [''Editable path /home/missing does not exist or is not a directory.'']\<rparr>)"
proof -
  have bad: "\<exists>p \<in> set (edit (demo_args [[''home'', ''proj''], [''home'', ''missing'']])).
               \<not> is_dir (fs demo_world) p"
    by (simp add: demo_args_def demo_world_def demo_fs_def is_dir_def)
  have good: "is_dir (fs demo_world) [''home'', ''proj'']"
    by (simp add: demo_world_def demo_fs_def is_dir_def)
  have err: "stderr demo_world = []"
    by (simp add: demo_world_def)
  from validation_failure [OF bad, of "demo_env (\<lambda>_. 0) (\<lambda>_ f. Inr (f, 0))"] good err
  show ?thesis
    by (auto simp: demo_args_def path_str_def)
qed

section \<open>Writing and removing nodes\<close>

lemma lookup_in_map_of: "lookup_in es d [] = map_of es d"
  by (induction es) auto

lemma lookup_in_filter_removed:
  "lookup_in (filter (\<lambda>(m, _). m \<noteq> d) es) d p = None"
  by (induction es) auto

lemma lookup_in_filter_other:
  "d' \<noteq> d \<Longrightarrow> lookup_in (filter (\<lambda>(m, _). m \<noteq> d) es) d' p = lookup_in es d' p"
  by (induction es) auto

lemma lookup_set_keeps:
  "lookup f q \<noteq> None \<Longrightarrow> length q \<le> length p \<Longrightarrow> lookup (fs_set p (Some x) f) q \<noteq> None"
  "lookup_in es d' q' \<noteq> None \<Longrightarrow> length q' \<le> length p' \<Longrightarrow>
     lookup_in (fs_set_in d p' (Some x) es) d' q' \<noteq> None"
proof (induction p "Some x" f and d p' "Some x" es
       arbitrary: q and d' q' rule: fs_set_fs_set_in.induct)
  case (1 p es)
  then show ?case by (cases p; cases q) auto
next
  case (2 p b)
  then show ?case by (cases p; cases q) auto
next
  case (3 p t)
  then show ?case by (cases p; cases q) auto
next
  case (4 p s)
  then show ?case by (cases p; cases q) auto
next
  case (5 d p')
  then show ?case by simp
next
  case (6 d p' n c es)
  then show ?case
    by (cases p'; cases q') (auto split: if_splits)
qed

lemma lookup_in_set_same: "lookup_in (fs_set_in n [] (Some x) es) n [] = Some x"
  by (induction es) auto

lemma lookup_set_same:
  "lookup f p = Some (Dir es) \<Longrightarrow> lookup (fs_set (p @ [n]) (Some x) f) (p @ [n]) = Some x"
  "lookup_in es' d p' = Some (Dir es) \<Longrightarrow>
     lookup_in (fs_set_in d (p' @ [n]) (Some x) es') d (p' @ [n]) = Some x"
proof (induction f p and es' d p' rule: lookup_lookup_in.induct)
  case (1 n')
  then show ?case by (simp add: lookup_in_set_same)
next
  case (2 es d p)
  then show ?case by simp
next
  case (3 b d p)
  then show ?case by simp
next
  case (4 t d p)
  then show ?case by simp
next
  case (5 s d p)
  then show ?case by simp
next
  case (6 d p)
  then show ?case by simp
next
  case (7 n' c es' d p)
  then show ?case
    by (cases p) (auto split: if_splits)
qed

section \<open>Failure while preparing overlays\<close>

lemma mkdtemp_cases:
  obtains (fail) x where "mkdtemp e pfx w = Raise x w" "x = FileExistsError \<or> x = FileNotFoundError"
  | (ok) s es where "mkdtemp e pfx w
        = Return (tmpdir e @ [pfx @ s])
            (w\<lparr>fs := fs_set (tmpdir e @ [pfx @ s]) (Some (Dir [])) (fs w),
               created := created w @ [tmpdir e @ [pfx @ s]]\<rparr>)"
      "lookup (fs w) (tmpdir e) = Some (Dir es)" "map_of es (pfx @ s) = None"
proof (cases "lookup (fs w) (tmpdir e)")
  case None
  then show ?thesis using fail by (simp add: mkdtemp_def)
next
  case (Some n)
  show ?thesis
  proof (cases n)
    case (Dir es)
    show ?thesis
    proof (cases "find (\<lambda>s. map_of es (pfx @ s) = None) (names e)")
      case None
      with Some Dir show ?thesis using fail by (simp add: mkdtemp_def)
    next
      case (Some s)
      then have "map_of es (pfx @ s) = None" by (auto simp: find_Some_iff)
      with Some Dir \<open>lookup (fs w) (tmpdir e) = Some n\<close> show ?thesis
        using ok [of s es] by (simp add: mkdtemp_def Let_def)
    qed
  next
    case (File b)
    with Some show ?thesis using fail by (simp add: mkdtemp_def)
  next
    case (Link t)
    with Some show ?thesis using fail by (simp add: mkdtemp_def)
  next
    case (Special s)
    with Some show ?thesis using fail by (simp add: mkdtemp_def)
  qed
qed

lemma rsync_cases:
  obtains (fail) x w1 where "rsync e p t w = Raise x w1"
      "x = FileNotFoundError \<or> (rsync_exit e p \<noteq> 0 \<and> x = CalledProcessError (rsync_exit e p))"
  | (ok) w1 where "rsync e p t w = Return () w1" "rsync_exit e p = 0"
  by (cases "launchable e ''rsync''"; cases "rsync_exit e p = 0") (auto simp: rsync_def Let_def)

lemma rsync_world:
  "created (world_of (rsync e p t w)) = created w"
  "lookup (fs w) q \<noteq> None \<Longrightarrow> length q \<le> length t
     \<Longrightarrow> lookup (fs (world_of (rsync e p t w))) q \<noteq> None"
proof -
  show "created (world_of (rsync e p t w)) = created w"
    by (simp add: rsync_def Let_def)
  assume q: "lookup (fs w) q \<noteq> None" "length q \<le> length t"
  have "lookup (fs_set t (Some x) (fs w)) q \<noteq> None" for x
    using q by (rule lookup_set_keeps(1))
  with q(1) show "lookup (fs (world_of (rsync e p t w))) q \<noteq> None"
    by (simp add: rsync_def Let_def split: option.splits node.splits)
qed

lemma prepare_loop_keeps:
  "lookup (fs w) q \<noteq> None \<Longrightarrow> length q \<le> Suc (length (tmpdir e))
     \<Longrightarrow> lookup (fs (world_of (prepare_loop e ps m w))) q \<noteq> None"
proof (induction ps arbitrary: m w)
  case Nil
  then show ?case by simp
next
  case (Cons p ps)
  show ?case
  proof (cases e "replace_slash (path_name p) @ ''_overlay_''" w rule: mkdtemp_cases)
    case (fail x)
    with Cons.prems show ?thesis by (simp add: after_def)
  next
    case (ok s es)
    let ?t = "tmpdir e @ [(replace_slash (path_name p) @ ''_overlay_'') @ s]"
    let ?w1 = "w\<lparr>fs := fs_set ?t (Some (Dir [])) (fs w), created := created w @ [?t]\<rparr>"
    have 1: "lookup (fs ?w1) q \<noteq> None"
      using Cons.prems by (simp add: lookup_set_keeps)
    have 2: "lookup (fs (world_of (rsync e p ?t ?w1))) q \<noteq> None"
      using 1 Cons.prems(2) by (intro rsync_world(2)) simp_all
    show ?thesis
    proof (cases rule: rsync_cases [of e p ?t ?w1])
      case (fail x w2)
      with 2 ok show ?thesis by (simp add: after_def)
    next
      case (ok w2)
      with 2 have "lookup (fs w2) q \<noteq> None" by simp
      from Cons.IH [OF this Cons.prems(2)] ok \<open>mkdtemp e (replace_slash (path_name p) @ ''_overlay_'') w
        = Return ?t ?w1\<close> show ?thesis by (simp add: after_def)
    qed
  qed
qed

lemma prepare_loop_created_exist:
  "\<forall>t \<in> set (created (world_of (prepare_loop e ps m w))).
      t \<in> set (created w) \<or> lookup (fs (world_of (prepare_loop e ps m w))) t \<noteq> None"
proof (induction ps arbitrary: m w)
  case Nil
  then show ?case by simp
next
  case (Cons p ps)
  show ?case
  proof (cases e "replace_slash (path_name p) @ ''_overlay_''" w rule: mkdtemp_cases)
    case (fail x)
    then show ?thesis by (simp add: after_def)
  next
    case (ok s es)
    let ?t = "tmpdir e @ [(replace_slash (path_name p) @ ''_overlay_'') @ s]"
    let ?w1 = "w\<lparr>fs := fs_set ?t (Some (Dir [])) (fs w), created := created w @ [?t]\<rparr>"
    note mk = ok(1)
    have 1: "lookup (fs ?w1) ?t \<noteq> None"
      using lookup_set_same(1) [OF ok(2)] by simp
    have 2: "lookup (fs (world_of (rsync e p ?t ?w1))) ?t \<noteq> None"
      using 1 by (intro rsync_world(2)) simp_all
    have c: "created (world_of (rsync e p ?t ?w1)) = created w @ [?t]"
      by (simp add: rsync_world(1))
    show ?thesis
    proof (cases rule: rsync_cases [of e p ?t ?w1])
      case (fail x w2)
      with 2 c mk show ?thesis by (auto simp: after_def)
    next
      case (ok w2)
      with 2 c have e2: "lookup (fs w2) ?t \<noteq> None" and c2: "created w2 = created w @ [?t]"
        by simp_all
      let ?r = "prepare_loop e ps (AList.update p ?t m) w2"
      have keep: "lookup (fs (world_of ?r)) ?t \<noteq> None"
        by (rule prepare_loop_keeps [OF e2]) simp
      have "\<forall>t \<in> set (created (world_of ?r)). t \<in> set (created w) \<or> lookup (fs (world_of ?r)) t \<noteq> None"
      proof
        fix t assume "t \<in> set (created (world_of ?r))"
        with Cons.IH [of "AList.update p ?t m" w2]
        have "t \<in> set (created w2) \<or> lookup (fs (world_of ?r)) t \<noteq> None" by blast
        then show "t \<in> set (created w) \<or> lookup (fs (world_of ?r)) t \<noteq> None"
          using keep by (auto simp: c2)
      qed
      with mk ok show ?thesis by (simp add: after_def)
    qed
  qed
qed

lemma prepare_loop_raises:
  assumes "\<exists>p \<in> set ps. rsync_exit e p \<noteq> 0"
  shows "\<exists>x w'. prepare_loop e ps m w = Raise x w'
           \<and> (x = FileExistsError \<or> x = FileNotFoundError
               \<or> (\<exists>p \<in> set ps. rsync_exit e p \<noteq> 0 \<and> x = CalledProcessError (rsync_exit e p)))"
  using assms
proof (induction ps arbitrary: m w)
  case Nil
  then show ?case by simp
next
  case (Cons p ps)
  show ?case
  proof (cases e "replace_slash (path_name p) @ ''_overlay_''" w rule: mkdtemp_cases)
    case (fail x)
    then show ?thesis by (auto simp: after_def)
  next
    case (ok s es)
    note mk = ok(1)
    let ?t = "tmpdir e @ [(replace_slash (path_name p) @ ''_overlay_'') @ s]"
    let ?w1 = "w\<lparr>fs := fs_set ?t (Some (Dir [])) (fs w), created := created w @ [?t]\<rparr>"
    show ?thesis
    proof (cases rule: rsync_cases [of e p ?t ?w1])
      case (fail x w2)
      with mk show ?thesis by (auto simp: after_def)
    next
      case (ok w2)
      with Cons.prems have "\<exists>p \<in> set ps. rsync_exit e p \<noteq> 0" by auto
      from Cons.IH [OF this, of "AList.update p ?t m" w2] mk ok show ?thesis
        by (auto simp: after_def)
    qed
  qed
qed

text \<open>
  Claim C6, as the code has it.  When \<open>rsync\<close> exits with a nonzero status for some root
  of the batch, \<open>prepare_overlays\<close> does not return: it raises, and unless \<open>mkdtemp\<close>
  failed first the exception is \<open>CalledProcessError\<close> with the status of a failing root.
  No overlay is released on the way out: every temporary directory created by the call,
  the one of the failing root included, still exists when the exception leaves.
\<close>

theorem prepare_failure_leaves_overlays:
  assumes "\<exists>p \<in> set paths. rsync_exit e p \<noteq> 0"
  shows "\<exists>x w'. prepare_overlays e paths w = Raise x w'
           \<and> (x = FileExistsError \<or> x = FileNotFoundError
               \<or> (\<exists>p \<in> set paths. rsync_exit e p \<noteq> 0 \<and> x = CalledProcessError (rsync_exit e p)))
           \<and> (\<forall>t \<in> set (created w'). t \<in> set (created w) \<or> lookup (fs w') t \<noteq> None)"
proof -
  from prepare_loop_raises [OF assms, of "[]" w] obtain x w' where
    r: "prepare_loop e paths [] w = Raise x w'"
    and k: "x = FileExistsError \<or> x = FileNotFoundError
               \<or> (\<exists>p \<in> set paths. rsync_exit e p \<noteq> 0 \<and> x = CalledProcessError (rsync_exit e p))"
    by blast
  from prepare_loop_created_exist [of e paths "[]" w] r
  have "\<forall>t \<in> set (created w'). t \<in> set (created w) \<or> lookup (fs w') t \<noteq> None"
    by simp
  with r k show ?thesis
    by (simp add: prepare_overlays_def)
qed

theorem prepare_failure_leaves_overlays_witness:
  "\<exists>x w'. prepare_overlays (demo_env (\<lambda>p. if p = [''home''] then 23 else 0) (\<lambda>_ f. Inr (f, 0)))
              [[''home'', ''proj''], [''home'']] demo_world = Raise x w'
      \<and> (x = FileExistsError \<or> x = FileNotFoundError
          \<or> (\<exists>p \<in> set [[''home'', ''proj''], [''home'']].
                rsync_exit (demo_env (\<lambda>p. if p = [''home''] then 23 else 0) (\<lambda>_ f. Inr (f, 0))) p \<noteq> 0
                \<and> x = CalledProcessError
                        (rsync_exit (demo_env (\<lambda>p. if p = [''home''] then 23 else 0)
                                              (\<lambda>_ f. Inr (f, 0))) p)))
      \<and> (\<forall>t \<in> set (created w'). t \<in> set (created demo_world) \<or> lookup (fs w') t \<noteq> None)"
proof -
  have h: "\<exists>p \<in> set [[''home'', ''proj''], [''home'']].
             rsync_exit (demo_env (\<lambda>p. if p = [''home''] then 23 else 0) (\<lambda>_ f. Inr (f, 0))) p \<noteq> 0"
    by (simp add: demo_env_def)
  show ?thesis
    by (rule prepare_failure_leaves_overlays [OF h])
qed

theorem partial_failure_keeps_earlier_overlay:
  "(case prepare_overlays (demo_env (\<lambda>p. if p = [''home''] then 23 else 0) (\<lambda>_ f. Inr (f, 0)))
           [[''home'', ''proj''], [''home'']] demo_world of
      Raise x w' \<Rightarrow>
        x = CalledProcessError 23
        \<and> created w' = [[''tmp'', ''proj_overlay_abc123''], [''tmp'', ''home_overlay_abc123'']]
        \<and> lookup (fs w') [''tmp'', ''proj_overlay_abc123''] = Some (Dir [(''file.txt'', File ''one'')])
        \<and> lookup (fs w') [''tmp'', ''home_overlay_abc123''] = Some (Dir [])
    | Return m w' \<Rightarrow> False)"
  by (simp add: prepare_overlays_def mkdtemp_def rsync_def demo_env_def demo_world_def demo_fs_def
      path_name_def replace_slash_def path_str_def Let_def after_def)

section \<open>Hashing that succeeds\<close>

lemma utf8_ok_ascii: "\<forall>c \<in> set s. (of_char c :: nat) < 128 \<Longrightarrow> utf8_ok s"
  by (induction s) auto

lemma hex_digit_ascii: "(of_char (hex_digit n) :: nat) < 128"
proof -
  have "hex_digit n \<in> set ''0123456789abcdef''"
    unfolding hex_digit_def by (rule nth_mem) simp
  then show ?thesis by auto
qed

lemma hexdigest_ascii: "\<forall>c \<in> set (hexdigest m). (of_char c :: nat) < 128"
  by (cases "sha256 m") (auto simp: hexdigest_def hex32_def hex_digit_ascii)

lemma encode_hexdigest [simp]: "encode (hexdigest m) = Inr (hexdigest m)"
  by (simp add: encode_def utf8_ok_ascii hexdigest_ascii)

lemma encode_empty [simp]: "encode [] = Inr []"
  by (simp add: encode_def)

lemma resolve_numeral:
  "resolve (numeral k) f cur (d # rest) =
     (case lookup f (cur @ [d]) of
        None \<Rightarrow> None
      | Some c \<Rightarrow> (case c of Link tgt \<Rightarrow> resolve (pred_numeral k) f [] (tgt @ rest)
                   | _ \<Rightarrow> resolve (numeral k) f (cur @ [d]) rest))"
  by (simp add: numeral_eq_Suc split: option.split node.split)

lemma and_then_Inr [simp]: "and_then (Inr x) g = g x"
  by (simp add: and_then_def)

lemma and_then_Inl [simp]: "and_then (Inl s) g = Inl s"
  by (simp add: and_then_def)

lemma hash_file_open: "can_open f c \<Longrightarrow> hash_file f c = Inr (digest_of f c)"
  by (cases "open_read f c") (simp_all add: can_open_def hash_file_def digest_of_def)

lemma utf8_ok_digest_of: "utf8_ok (digest_of f c)"
  by (cases "open_read f c")
     (simp_all add: digest_of_def hash_file_def utf8_ok_ascii hexdigest_ascii)

lemma merkle_files_fold:
  assumes "list_all (\<lambda>(name, c). can_open f c) xs"
  shows "fold (\<lambda>(name, c) a.
                 and_then a (\<lambda>entries.
                 and_then (hash_file f c) (\<lambda>h. Inr (entries @ [(rel root name, h)]))))
              xs (Inr acc)
         = Inr (acc @ map (\<lambda>(name, c). (rel root name, digest_of f c)) xs)"
  using assms by (induction xs arbitrary: acc) (auto simp: hash_file_open)

lemma merkle_walk_fold:
  assumes "list_all (\<lambda>(root, dirs, files). list_all (\<lambda>(name, c). can_open f c) files) ts"
  shows "fold (\<lambda>(root, dirs, files) acc.
             and_then
               (fold (\<lambda>(name, c) a.
                        and_then a (\<lambda>entries.
                        and_then (hash_file f c) (\<lambda>h. Inr (entries @ [(rel root name, h)]))))
                     (sort_key fst files) acc)
               (\<lambda>entries. Inr (entries @ map (\<lambda>name. (rel root name @ ''/'', [])) (sort dirs))))
          ts (Inr acc)
         = Inr (acc @ entries_of f ts)"
  using assms
proof (induction ts arbitrary: acc)
  case Nil
  then show ?case by (simp add: entries_of_def)
next
  case (Cons t ts)
  obtain root dirs files where t: "t = (root, dirs, files)" by (cases t) auto
  from Cons.prems have "list_all (\<lambda>(name, c). can_open f c) (sort_key fst files)"
    by (simp add: t list_all_iff)
  note step = merkle_files_fold [OF this]
  from Cons.prems have rest: "list_all (\<lambda>(root, dirs, files). list_all (\<lambda>(name, c). can_open f c) files) ts"
    by simp
  show ?case
    using Cons.IH [OF rest] by (simp add: t step entries_of_def)
qed

lemma readable_opens:
  "readable f d \<Longrightarrow>
   list_all (\<lambda>(root, dirs, files). list_all (\<lambda>(name, c). can_open f c) files) (walk f [] d)"
  unfolding readable_def list_all_iff by fastforce

lemma merkle_entries_readable:
  "readable f d \<Longrightarrow> merkle_entries f d = Inr (entries_of f (walk f [] d))"
  unfolding merkle_entries_def using merkle_walk_fold [OF readable_opens, of f d "[]"] by simp

lemma encode_fold:
  assumes "list_all (\<lambda>(n, h). utf8_ok n \<and> utf8_ok h) es"
  shows "fold (\<lambda>(name, digest) acc.
                 and_then acc (\<lambda>sha.
                 and_then (encode name) (\<lambda>nb.
                 and_then (encode digest) (\<lambda>db. Inr (sha_update db (sha_update nb sha))))))
              es (Inr sha)
         = Inr (fold (\<lambda>(n, h) s. sha_update h (sha_update n s)) es sha)"
  using assms by (induction es arbitrary: sha) (auto simp: encode_def)

lemma readable_entries:
  assumes "readable f d"
  shows "list_all (\<lambda>(n, h). utf8_ok n \<and> utf8_ok h) (entries_of f (walk f [] d))"
  using assms unfolding readable_def entries_of_def list_all_iff
  by (fastforce simp: utf8_ok_digest_of)

lemma merkle_hash_readable:
  assumes "readable f d"
  shows "merkle_hash f d
         = Inr (hexdigest (fold (\<lambda>(n, h) s. sha_update h (sha_update n s))
                                (sort (entries_of f (walk f [] d))) []))"
proof -
  from readable_entries [OF assms]
  have "list_all (\<lambda>(n, h). utf8_ok n \<and> utf8_ok h) (sort (entries_of f (walk f [] d)))"
    by (simp add: list_all_iff)
  from encode_fold [OF this] show ?thesis
    by (simp add: merkle_hash_def merkle_entries_readable [OF assms])
qed

lemma snapshot_files_fold:
  assumes "list_all (\<lambda>(name, c). can_open f c) xs"
  shows "fold (\<lambda>(name, c) a.
                 and_then a (\<lambda>mapping.
                 and_then (hash_file f c) (\<lambda>h. Inr (AList.update (rel root name) h mapping))))
              xs (Inr acc)
         = Inr (fold (\<lambda>(name, c). AList.update (rel root name) (digest_of f c)) xs acc)"
  using assms by (induction xs arbitrary: acc) (auto simp: hash_file_open)

lemma snapshot_walk_fold:
  assumes "list_all (\<lambda>(root, dirs, files). list_all (\<lambda>(name, c). can_open f c) files) ts"
  shows "fold (\<lambda>(root, dirs, files) acc.
             fold (\<lambda>(name, c) a.
                     and_then a (\<lambda>mapping.
                     and_then (hash_file f c) (\<lambda>h. Inr (AList.update (rel root name) h mapping))))
                  files acc)
          ts (Inr acc)
         = Inr (fold (\<lambda>(root, dirs, files).
                        fold (\<lambda>(name, c). AList.update (rel root name) (digest_of f c)) files) ts acc)"
  using assms
proof (induction ts arbitrary: acc)
  case Nil
  then show ?case by simp
next
  case (Cons t ts)
  obtain root dirs files where t: "t = (root, dirs, files)" by (cases t) auto
  from Cons.prems have "list_all (\<lambda>(name, c). can_open f c) files"
    by (simp add: t)
  note step = snapshot_files_fold [OF this]
  from Cons.prems have rest: "list_all (\<lambda>(root, dirs, files). list_all (\<lambda>(name, c). can_open f c) files) ts"
    by simp
  show ?case
    using Cons.IH [OF rest] by (simp add: t step)
qed

lemma snapshot_directory_readable:
  "readable f d \<Longrightarrow> snapshot_directory f d = Inr (snapshot_of f (walk f [] d))"
  unfolding snapshot_directory_def snapshot_of_def
  using snapshot_walk_fold [OF readable_opens, of f d "[]"] by simp

lemma hashes_fold:
  assumes "list_all (\<lambda>p. readable f (walk_target f p)) ps"
  shows "\<exists>d. fold (\<lambda>p acc.
                   and_then acc (\<lambda>d.
                   and_then (merkle_hash f (walk_target f p)) (\<lambda>h. Inr (AList.update (path_str p) h d))))
                ps (Inr acc) = Inr d"
  using assms by (induction ps arbitrary: acc) (auto simp: merkle_hash_readable)

lemma snapshots_fold:
  assumes "list_all (\<lambda>p. readable f (walk_target f p)) ps"
  shows "\<exists>d. fold (\<lambda>p acc.
                   and_then acc (\<lambda>d.
                   and_then (snapshot_directory f (walk_target f p))
                            (\<lambda>s. Inr (AList.update (path_str p) s d))))
                ps (Inr acc) = Inr d"
  using assms by (induction ps arbitrary: acc) (auto simp: snapshot_directory_readable)

lemma hashes_readable:
  "list_all (\<lambda>p. readable f (walk_target f p)) ps \<Longrightarrow> \<exists>d. compute_initial_hashes f ps = Inr d"
  unfolding compute_initial_hashes_def by (rule hashes_fold)

lemma snapshots_readable:
  "list_all (\<lambda>p. readable f (walk_target f p)) ps \<Longrightarrow> \<exists>d. snapshot_directories f ps = Inr d"
  unfolding snapshot_directories_def by (rule snapshots_fold)

lemma cleanup_loop_returns:
  "ts = [] \<or> launchable e ''rm'' \<Longrightarrow> \<exists>w'. cleanup_loop e ts w = Return () w'"
  by (induction ts arbitrary: w) auto
section \<open>Steps of a session\<close>

lemma demo_overlay_readable:
  "readable (Dir [(''home'', Dir [(''proj'', Dir [(''file.txt'', File ''one'')])]),
                  (''tmp'', Dir [(''proj_overlay_abc123'', Dir [(''file.txt'', File x)])])])
            (walk_target (Dir [(''home'', Dir [(''proj'', Dir [(''file.txt'', File ''one'')])]),
                  (''tmp'', Dir [(''proj_overlay_abc123'', Dir [(''file.txt'', File x)])])])
                         [''tmp'', ''proj_overlay_abc123''])"
  by (simp add: readable_def walk_target_def stat_def resolve_numeral dir_names_def file_items_def
      entry_is_dir_def can_open_def open_read_def rel_def)

lemma main_returns:
  assumes "find (\<lambda>p. \<not> is_dir (fs w) p) (edit a) = None"
    and "prepare_overlays e (edit a) w = Return overlays w1"
    and "container e (build_docker_cmd (image_name a) (map snd overlays) (command a) (user a))
           (fs w1) = Inr (fs2, code)"
    and c: "stdout_ok e \<and> (overlays = [] \<or> launchable e ''rm'')
            \<and> list_all (\<lambda>t. readable (fs w1) (walk_target (fs w1) t)
                              \<and> readable fs2 (walk_target fs2 t)) (map snd overlays)"
  shows "\<exists>w'. main a e w = Return code w'"
proof -
  let ?ts = "map snd overlays"
  from c have r1: "list_all (\<lambda>t. readable (fs w1) (walk_target (fs w1) t)) ?ts"
    and r2: "list_all (\<lambda>t. readable fs2 (walk_target fs2 t)) ?ts"
    by (simp_all add: list_all_iff)
  from hashes_readable [OF r1] obtain h1 where h1: "compute_initial_hashes (fs w1) ?ts = Inr h1" ..
  from snapshots_readable [OF r1] obtain s1 where s1: "snapshot_directories (fs w1) ?ts = Inr s1" ..
  from hashes_readable [OF r2] obtain h2 where h2: "compute_initial_hashes fs2 ?ts = Inr h2" ..
  from snapshots_readable [OF r2] obtain s2 where s2: "snapshot_directories fs2 ?ts = Inr s2" ..
  from c have "?ts = [] \<or> launchable e ''rm''" by auto
  then have "\<forall>W. \<exists>w'. cleanup_loop e ?ts W = Return () w'"
    by (simp add: cleanup_loop_returns)
  then obtain g where w3: "\<And>W. cleanup_loop e ?ts W = Return () (g W)" by metis
  show ?thesis
    unfolding main_def assms(1) using assms(2,3) c
    by (simp add: after_def check_def run_container_def print_out_def Let_def h1 s1 h2 s2
        compute_final_hashes_def cleanup_overlays_def w3)
qed

lemma after_Return_iff:
  "(after x g = Return r w') = (\<exists>v w0. x = Return v w0 \<and> g v w0 = Return r w')"
  by (cases x) (auto simp: after_def)

lemma check_Return_iff: "(check x w = Return v w0) = (x = Inr v \<and> w0 = w)"
  by (auto simp: check_def split: sum.splits stop.splits)

lemma print_out_Return:
  "print_out e l w = Return u w0 \<Longrightarrow> fs w0 = fs w \<and> created w0 = created w"
  by (auto simp: print_out_def split: if_splits)

lemma run_container_Return:
  "run_container e cmd w = Return r w2 \<Longrightarrow> created w2 = created w"
  by (auto simp: run_container_def print_out_def after_def check_def Let_def
        split: if_splits sum.splits stop.splits)

lemma main_return_cleanup:
  assumes "find (\<lambda>p. \<not> is_dir (fs w) p) (edit a) = None"
    and "prepare_overlays e (edit a) w = Return overlays w1"
    and "main a e w = Return r w'"
  shows "\<exists>W w3. created W = created w1 \<and> cleanup_loop e (map snd overlays) W = Return () w3
               \<and> fs w' = fs w3 \<and> created w' = created w3"
proof -
  from assms(3) obtain ret w2 w3 lines u where
    run: "run_container e (build_docker_cmd (image_name a) (map snd overlays) (command a) (user a)) w1
          = Return ret w2"
    and cl: "cleanup_loop e (map snd overlays) w2 = Return () w3"
    and pr: "print_out e lines w3 = Return u w'"
    by (auto simp: main_def assms(1,2) Let_def after_Return_iff check_Return_iff cleanup_overlays_def)
  from run_container_Return [OF run] print_out_Return [OF pr] cl show ?thesis
    by blast
qed

lemma main_stops:
  assumes "find (\<lambda>p. \<not> is_dir (fs w) p) (edit a) = None"
    and "prepare_overlays e (edit a) w = Return overlays w1"
    and "container e (build_docker_cmd (image_name a) (map snd overlays) (command a) (user a))
           (fs w1) = Inl s"
  shows "(\<forall>r w'. main a e w \<noteq> Return r w')
       \<and> fs (world_of (main a e w)) = fs w1 \<and> created (world_of (main a e w)) = created w1"
  unfolding main_def assms(1) using assms(2,3)
  by (auto simp: after_def check_def run_container_def print_out_def Let_def
        split: result.splits sum.splits stop.splits if_splits)

lemma lookup_remove_same:
  "p \<noteq> [] \<longrightarrow> lookup (fs_set p v f) p = None \<or> v \<noteq> None"
  "lookup_in (fs_set_in d p' v es) d p' = None \<or> v \<noteq> None"
  by (induction p v f and d p' v es rule: fs_set_fs_set_in.induct)
     (auto split: list.splits option.splits simp: lookup_in_filter_removed)

lemma lookup_remove_none:
  "lookup f q = None \<Longrightarrow> lookup (fs_set p None f) q = None"
  "lookup_in es d' q' = None \<Longrightarrow> lookup_in (fs_set_in d p' None es) d' q' = None"
proof (induction p "None :: node option" f and d p' "None :: node option" es
       arbitrary: q and d' q' rule: fs_set_fs_set_in.induct)
  case (1 p es)
  then show ?case by (cases p; cases q) auto
next
  case (2 p b)
  then show ?case by (cases p) auto
next
  case (3 p t)
  then show ?case by (cases p) auto
next
  case (4 p s)
  then show ?case by (cases p) auto
next
  case (5 d p')
  then show ?case by (cases p') auto
next
  case (6 d p' n c es)
  then show ?case
    by (cases p'; cases q') (auto simp: lookup_in_filter_other lookup_in_filter_removed split: if_splits)
qed

lemma cleanup_loop_created:
  "cleanup_loop e ts w = Return u w' \<Longrightarrow> created w' = created w"
  by (induction ts arbitrary: w) (auto split: if_splits)

lemma cleanup_loop_keeps_absent:
  "cleanup_loop e ts w = Return u w' \<Longrightarrow> lookup (fs w) t = None \<Longrightarrow> lookup (fs w') t = None"
proof (induction ts arbitrary: w)
  case Nil
  then show ?case by simp
next
  case (Cons x xs)
  let ?w = "w\<lparr>fs := (if rm_ok e x then fs_set x None (fs w) else fs w),
               procs := procs w @ [[''rm'', ''-rf'', path_str x]]\<rparr>"
  from Cons.prems(1) have r: "cleanup_loop e xs ?w = Return u w'"
    by (simp split: if_splits)
  have "lookup (fs ?w) t = None"
    using Cons.prems(2) by (simp add: lookup_remove_none)
  from Cons.IH [OF r this] show ?case .
qed

lemma cleanup_loop_removes:
  assumes "cleanup_loop e ts w = Return u w'" and "t \<in> set ts" and "rm_ok e t" and "t \<noteq> []"
  shows "lookup (fs w') t = None"
  using assms(1,2)
proof (induction ts arbitrary: w)
  case Nil
  then show ?case by simp
next
  case (Cons x xs)
  let ?w = "w\<lparr>fs := (if rm_ok e x then fs_set x None (fs w) else fs w),
               procs := procs w @ [[''rm'', ''-rf'', path_str x]]\<rparr>"
  from Cons.prems(1) have r: "cleanup_loop e xs ?w = Return u w'"
    by (simp split: if_splits)
  show ?case
  proof (cases "x = t")
    case True
    have "lookup (fs_set t None (fs w)) t = None"
      using lookup_remove_same(1) [of t None "fs w"] assms(4) by simp
    then have "lookup (fs ?w) t = None"
      using True assms(3) by simp
    from cleanup_loop_keeps_absent [OF r this] show ?thesis .
  next
    case False
    with Cons.prems(2) have "t \<in> set xs" by simp
    from Cons.IH [OF r this] show ?thesis .
  qed
qed

lemma update_fresh: "k \<notin> fst ` set m \<Longrightarrow> AList.update k v m = m @ [(k, v)]"
  by (induction m) auto

lemma update_values: "snd ` set (AList.update k v m) \<subseteq> insert v (snd ` set m)"
  by (induction m) auto

lemma mkdtemp_Return:
  assumes "mkdtemp e pfx w = Return t w1"
  shows "t \<noteq> []" and "created w1 = created w @ [t]"
  using assms
  by (auto simp: mkdtemp_def Let_def split: option.splits node.splits)

lemma rsync_Return:
  assumes "rsync e p t w = Return u w1"
  shows "created w1 = created w"
  using assms
  by (auto simp: rsync_def Let_def split: if_splits option.splits node.splits)

lemma prepare_loop_created:
  assumes "prepare_loop e ps m w = Return m' w'"
    and "distinct ps" and "set ps \<inter> fst ` set m = {}"
  shows "set m \<subseteq> set m' \<and> set (created w') \<subseteq> set (created w) \<union> snd ` set m'
         \<and> (\<forall>t \<in> snd ` set m'. t \<in> snd ` set m \<or> t \<noteq> [])"
  using assms
proof (induction ps arbitrary: m w)
  case Nil
  then show ?case by auto
next
  case (Cons p ps)
  from Cons.prems(1) obtain tmp w1 u w2 where
    mk: "mkdtemp e (replace_slash (path_name p) @ ''_overlay_'') w = Return tmp w1"
    and rs: "rsync e p tmp w1 = Return u w2"
    and rest: "prepare_loop e ps (AList.update p tmp m) w2 = Return m' w'"
    by (auto simp: after_def split: result.splits)
  from Cons.prems have fresh: "p \<notin> fst ` set m" by auto
  then have upd: "AList.update p tmp m = m @ [(p, tmp)]" by (rule update_fresh)
  from Cons.prems have d: "distinct ps" and disj: "set ps \<inter> fst ` set (AList.update p tmp m) = {}"
    by (auto simp: upd)
  note IH = Cons.IH [OF rest d disj]
  from mkdtemp_Return [OF mk] rsync_Return [OF rs]
  have c: "created w2 = created w @ [tmp]" and ne: "tmp \<noteq> []" by simp_all
  from IH have sub: "set m \<subseteq> set m'" and tin: "(p, tmp) \<in> set m'"
    by (auto simp: upd)
  from tin have tin': "tmp \<in> snd ` set m'" by force
  from IH have cr: "set (created w') \<subseteq> set (created w2) \<union> snd ` set m'" by simp
  have 1: "set (created w') \<subseteq> set (created w) \<union> snd ` set m'"
    using cr tin' by (auto simp: c)
  have 2: "\<forall>t \<in> snd ` set m'. t \<in> snd ` set m \<or> t \<noteq> []"
  proof
    fix t assume "t \<in> snd ` set m'"
    with IH have "t \<in> snd ` set (AList.update p tmp m) \<or> t \<noteq> []" by blast
    then show "t \<in> snd ` set m \<or> t \<noteq> []" using ne by (auto simp: upd)
  qed
  from sub 1 2 show ?case by blast
qed

lemma prepare_loop_values_exist:
  "prepare_loop e ps m w = Return m' w'
   \<Longrightarrow> \<forall>t \<in> snd ` set m'. t \<in> snd ` set m \<or> lookup (fs w') t \<noteq> None"
proof (induction ps arbitrary: m w)
  case Nil
  then show ?case by auto
next
  case (Cons p ps)
  show ?case
  proof (cases e "replace_slash (path_name p) @ ''_overlay_''" w rule: mkdtemp_cases)
    case (fail x)
    with Cons.prems show ?thesis by (simp add: after_def)
  next
    case (ok s es)
    let ?t = "tmpdir e @ [(replace_slash (path_name p) @ ''_overlay_'') @ s]"
    let ?w1 = "w\<lparr>fs := fs_set ?t (Some (Dir [])) (fs w), created := created w @ [?t]\<rparr>"
    note mk = ok(1)
    have 1: "lookup (fs ?w1) ?t \<noteq> None"
      using lookup_set_same(1) [OF ok(2)] by simp
    have 2: "lookup (fs (world_of (rsync e p ?t ?w1))) ?t \<noteq> None"
      using 1 by (intro rsync_world(2)) simp_all
    show ?thesis
    proof (cases rule: rsync_cases [of e p ?t ?w1])
      case (fail x w2)
      with mk Cons.prems show ?thesis by (simp add: after_def)
    next
      case (ok w2)
      with 2 have e2: "lookup (fs w2) ?t \<noteq> None" by simp
      from Cons.prems mk ok
      have rest: "prepare_loop e ps (AList.update p ?t m) w2 = Return m' w'"
        by (simp add: after_def)
      have keep: "lookup (fs w') ?t \<noteq> None"
        using prepare_loop_keeps [OF e2, of e ps "AList.update p ?t m"] rest by simp
      show ?thesis
      proof
        fix t assume "t \<in> snd ` set m'"
        with Cons.IH [OF rest]
        have "t \<in> snd ` set (AList.update p ?t m) \<or> lookup (fs w') t \<noteq> None" by blast
        then show "t \<in> snd ` set m \<or> lookup (fs w') t \<noteq> None"
          using keep update_values [of p ?t m] by auto
      qed
    qed
  qed
qed
section \<open>The value returned after execution\<close>



section \<open>Overlays at the end of a session\<close>

text \<open>
  Claim C1, as the code has it.  Take a session in which validation passes and the
  overlays are prepared.  If the editable paths are pairwise distinct, every \<open>rm -rf\<close> of
  an overlay succeeds and \<open>main\<close> returns, then every temporary directory created during
  the session is absent from the file system \<open>main\<close> returns in.  If the container
  runtime does not return an exit code (it cannot be launched, it is interrupted, or it
  never ends), then \<open>main\<close> does not return either: the cleanup is never reached, and every
  overlay of the session, like every temporary directory created during it, still
  exists in the world in which \<open>main\<close> stopped.
\<close>

theorem overlays_after_session:
  assumes "find (\<lambda>p. \<not> is_dir (fs w) p) (edit a) = None"
    and "prepare_overlays e (edit a) w = Return overlays w1"
  shows "(\<forall>r w'. distinct (edit a) \<and> (\<forall>t \<in> snd ` set overlays. rm_ok e t)
                  \<and> main a e w = Return r w'
            \<longrightarrow> (\<forall>t \<in> set (created w'). t \<in> set (created w) \<or> lookup (fs w') t = None))
       \<and> (\<forall>s. container e (build_docker_cmd (image_name a) (map snd overlays) (command a) (user a))
                 (fs w1) = Inl s
            \<longrightarrow> (\<forall>r w'. main a e w \<noteq> Return r w')
                \<and> (\<forall>t \<in> snd ` set overlays. lookup (fs (world_of (main a e w))) t \<noteq> None)
                \<and> (\<forall>t \<in> set (created (world_of (main a e w))).
                      t \<in> set (created w) \<or> lookup (fs (world_of (main a e w))) t \<noteq> None))"
proof (intro conjI)
  show "\<forall>r w'. distinct (edit a) \<and> (\<forall>t \<in> snd ` set overlays. rm_ok e t)
                  \<and> main a e w = Return r w'
            \<longrightarrow> (\<forall>t \<in> set (created w'). t \<in> set (created w) \<or> lookup (fs w') t = None)"
  proof (intro allI impI)
  fix r w'
  assume h: "distinct (edit a) \<and> (\<forall>t \<in> snd ` set overlays. rm_ok e t) \<and> main a e w = Return r w'"
  from assms(2) have loop: "prepare_loop e (edit a) [] w = Return overlays w1"
    by (simp add: prepare_overlays_def)
  from h have "distinct (edit a)" by simp
  from prepare_loop_created [OF loop this]
  have cr: "set (created w1) \<subseteq> set (created w) \<union> snd ` set overlays"
    and ne: "\<forall>t \<in> snd ` set overlays. t \<noteq> []"
    by auto
  from h have "main a e w = Return r w'" by simp
  from main_return_cleanup [OF assms this] obtain W w3 where
    c: "created W = created w1" and cl: "cleanup_loop e (map snd overlays) W = Return () w3"
    and f: "fs w' = fs w3" and c': "created w' = created w3"
    by blast
  show "\<forall>t \<in> set (created w'). t \<in> set (created w) \<or> lookup (fs w') t = None"
  proof
    fix t assume "t \<in> set (created w')"
    then have "t \<in> set (created w1)" by (simp add: c' c cleanup_loop_created [OF cl])
    with cr have "t \<in> set (created w) \<or> t \<in> snd ` set overlays" by auto
    then show "t \<in> set (created w) \<or> lookup (fs w') t = None"
    proof
      assume "t \<in> set (created w)" then show ?thesis ..
    next
      assume t: "t \<in> snd ` set overlays"
      with ne have n: "t \<noteq> []" by blast
      from t have m: "t \<in> set (map snd overlays)" by simp
      from t h have "rm_ok e t" by blast
      from cleanup_loop_removes [OF cl m this n] show ?thesis by (simp add: f)
    qed
  qed
  qed
next
  show "\<forall>s. container e (build_docker_cmd (image_name a) (map snd overlays) (command a) (user a))
                 (fs w1) = Inl s
            \<longrightarrow> (\<forall>r w'. main a e w \<noteq> Return r w')
                \<and> (\<forall>t \<in> snd ` set overlays. lookup (fs (world_of (main a e w))) t \<noteq> None)
                \<and> (\<forall>t \<in> set (created (world_of (main a e w))).
                      t \<in> set (created w) \<or> lookup (fs (world_of (main a e w))) t \<noteq> None)"
  proof (intro allI impI)
  fix s
  assume s: "container e (build_docker_cmd (image_name a) (map snd overlays) (command a) (user a))
                 (fs w1) = Inl s"
  note st = main_stops [OF assms s]
  from assms(2) have loop: "prepare_loop e (edit a) [] w = Return overlays w1"
    by (simp add: prepare_overlays_def)
  from st have 1: "\<forall>r w'. main a e w \<noteq> Return r w'" by simp
  from prepare_loop_values_exist [OF loop] st
  have 2: "\<forall>t \<in> snd ` set overlays. lookup (fs (world_of (main a e w))) t \<noteq> None"
    by simp
  from prepare_loop_created_exist [of e "edit a" "[]" w] loop st
  have 3: "\<forall>t \<in> set (created (world_of (main a e w))).
          t \<in> set (created w) \<or> lookup (fs (world_of (main a e w))) t \<noteq> None"
    by simp
  from 1 2 3
  show "(\<forall>r w'. main a e w \<noteq> Return r w')
                \<and> (\<forall>t \<in> snd ` set overlays. lookup (fs (world_of (main a e w))) t \<noteq> None)
                \<and> (\<forall>t \<in> set (created (world_of (main a e w))).
                      t \<in> set (created w) \<or> lookup (fs (world_of (main a e w))) t \<noteq> None)"
    by blast
  qed
qed

theorem overlays_after_session_witness:
  "(\<exists>w'. main (demo_args [[''home'', ''proj'']]) (demo_env (\<lambda>_. 0) (\<lambda>_ f. Inr (f, 7))) demo_world
            = Return 7 w'
         \<and> (\<forall>t \<in> set (created w'). t \<in> set (created demo_world) \<or> lookup (fs w') t = None))
   \<and> (\<forall>r w'. main (demo_args [[''home'', ''proj'']])
                (demo_env (\<lambda>_. 0) (\<lambda>_ _. Inl (Raised KeyboardInterrupt))) demo_world \<noteq> Return r w')
   \<and> lookup (fs (world_of (main (demo_args [[''home'', ''proj'']])
                (demo_env (\<lambda>_. 0) (\<lambda>_ _. Inl (Raised KeyboardInterrupt))) demo_world)))
        [''tmp'', ''proj_overlay_abc123''] \<noteq> None"
proof -
  let ?a = "demo_args [[''home'', ''proj'']]"
  let ?c = "\<lambda>(_ :: string list) (f :: node). Inr (f, 7 :: int) :: stop + node \<times> int"
  let ?k = "\<lambda>(_ :: string list) (_ :: node). Inl (Raised KeyboardInterrupt) :: stop + node \<times> int"
  let ?f1 = "Dir [(''home'', Dir [(''proj'', Dir [(''file.txt'', File ''one'')])]),
                    (''tmp'', Dir [(''proj_overlay_abc123'', Dir [(''file.txt'', File ''one'')])])]"
  let ?w1 = "\<lparr>fs = ?f1, stdout = [], stderr = [], created = [[''tmp'', ''proj_overlay_abc123'']],
          procs = [[''rsync'', ''-a'', ''/home/proj/'', ''/tmp/proj_overlay_abc123/'']]\<rparr>"
  let ?m = "[([''home'', ''proj''], [''tmp'', ''proj_overlay_abc123''])]"
  have p: "prepare_overlays (demo_env (\<lambda>_. 0) ?c) (edit ?a) demo_world = Return ?m ?w1"
    using demo_prepare [of ?c] by (simp add: demo_args_def)
  have q: "prepare_overlays (demo_env (\<lambda>_. 0) ?k) (edit ?a) demo_world = Return ?m ?w1"
    using demo_prepare [of ?k] by (simp add: demo_args_def)
  have run: "container (demo_env (\<lambda>_. 0) ?c)
        (build_docker_cmd (image_name ?a) (map snd ?m) (command ?a) (user ?a)) (fs ?w1)
      = Inr (?f1, 7)"
    by (simp add: demo_env_def)
  have ok: "stdout_ok (demo_env (\<lambda>_. 0) ?c)
      \<and> (?m = [] \<or> launchable (demo_env (\<lambda>_. 0) ?c) ''rm'')
      \<and> list_all (\<lambda>t. readable (fs ?w1) (walk_target (fs ?w1) t)
                        \<and> readable ?f1 (walk_target ?f1 t)) (map snd ?m)"
    using demo_overlay_readable [of "''one''"] by (simp add: demo_env_def)
  from main_returns [OF demo_valid p run ok] obtain w'
    where m: "main ?a (demo_env (\<lambda>_. 0) ?c) demo_world = Return 7 w'" ..
  have h: "distinct (edit ?a) \<and> (\<forall>t \<in> snd ` set ?m. rm_ok (demo_env (\<lambda>_. 0) ?c) t)
           \<and> main ?a (demo_env (\<lambda>_. 0) ?c) demo_world = Return 7 w'"
    using m by (simp add: demo_args_def demo_env_def)
  from overlays_after_session [OF demo_valid p, THEN conjunct1, THEN spec, THEN spec, THEN mp, OF h] m
  have 1: "\<exists>w'. main ?a (demo_env (\<lambda>_. 0) ?c) demo_world = Return 7 w'
         \<and> (\<forall>t \<in> set (created w'). t \<in> set (created demo_world) \<or> lookup (fs w') t = None)"
    by blast
  have s: "container (demo_env (\<lambda>_. 0) ?k)
        (build_docker_cmd (image_name ?a) (map snd ?m) (command ?a) (user ?a)) (fs ?w1)
      = Inl (Raised KeyboardInterrupt)"
    by (simp add: demo_env_def)
  from overlays_after_session [OF demo_valid q, THEN conjunct2, THEN spec, THEN mp, OF s]
  have 2: "(\<forall>r w'. main ?a (demo_env (\<lambda>_. 0) ?k) demo_world \<noteq> Return r w')
     \<and> lookup (fs (world_of (main ?a (demo_env (\<lambda>_. 0) ?k) demo_world)))
          [''tmp'', ''proj_overlay_abc123''] \<noteq> None"
    by simp
  from 1 2 show ?thesis by blast
qed

theorem launch_failure_leaves_overlay:
  "(case main (demo_args [[''home'', ''proj'']])
              (demo_env (\<lambda>_. 0) (\<lambda>_ _. Inl (Raised FileNotFoundError))) demo_world of
      Raise x w' \<Rightarrow>
        x = FileNotFoundError
        \<and> created w' = [[''tmp'', ''proj_overlay_abc123'']]
        \<and> lookup (fs w') [''tmp'', ''proj_overlay_abc123''] = Some (Dir [(''file.txt'', File ''one'')])
    | Return code w' \<Rightarrow> False
    | Hang w' \<Rightarrow> False)"
proof -
  let ?c = "\<lambda>(_ :: string list) (_ :: node). Inl (Raised FileNotFoundError) :: stop + node \<times> int"
  let ?f1 = "Dir [(''home'', Dir [(''proj'', Dir [(''file.txt'', File ''one'')])]),
                    (''tmp'', Dir [(''proj_overlay_abc123'', Dir [(''file.txt'', File ''one'')])])]"
  let ?ts = "[[''tmp'', ''proj_overlay_abc123'']]"
  have p: "prepare_overlays (demo_env (\<lambda>_. 0) ?c) (edit (demo_args [[''home'', ''proj'']])) demo_world
     = Return [([''home'', ''proj''], [''tmp'', ''proj_overlay_abc123''])]
         \<lparr>fs = ?f1, stdout = [], stderr = [], created = [[''tmp'', ''proj_overlay_abc123'']],
          procs = [[''rsync'', ''-a'', ''/home/proj/'', ''/tmp/proj_overlay_abc123/'']]\<rparr>"
    using demo_prepare [of ?c] by (simp add: demo_args_def)
  have r1: "list_all (\<lambda>t. readable ?f1 (walk_target ?f1 t)) ?ts"
    using demo_overlay_readable [of "''one''"] by simp
  from hashes_readable [OF r1] obtain h1 where h1: "compute_initial_hashes ?f1 ?ts = Inr h1" ..
  from snapshots_readable [OF r1] obtain s1 where s1: "snapshot_directories ?f1 ?ts = Inr s1" ..
  show ?thesis
    unfolding main_def demo_valid p
    by (simp add: after_def check_def run_container_def print_out_def Let_def demo_env_def h1 s1)
qed
section \<open>Isolation of the overlays\<close>

lemma lookup_frame:
  "\<not> prefix q p \<Longrightarrow> \<not> prefix p q \<Longrightarrow> lookup (fs_set q v f) p = lookup f p"
  "\<not> prefix (d # q') (d' # p') \<Longrightarrow> \<not> prefix (d' # p') (d # q')
     \<Longrightarrow> lookup_in (fs_set_in d q' v es) d' p' = lookup_in es d' p'"
proof (induction q v f and d q' v es arbitrary: p and d' p' rule: fs_set_fs_set_in.induct)
  case (1 q v es)
  then show ?case by (cases q; cases p) auto
next
  case (2 q v b)
  then show ?case by (cases q; cases p) auto
next
  case (3 q v t)
  then show ?case by (cases q; cases p) auto
next
  case (4 q v s)
  then show ?case by (cases q; cases p) auto
next
  case (5 d q' v)
  then show ?case by (cases q'; cases v) auto
next
  case (6 d q' v n c es)
  then show ?case
    by (cases q'; cases v) (auto simp: lookup_in_filter_other)
qed

lemma lookup_prefix_exists:
  "lookup f (t @ r) \<noteq> None \<Longrightarrow> lookup f t \<noteq> None"
  "lookup_in es d (t' @ r) \<noteq> None \<Longrightarrow> lookup_in es d t' \<noteq> None"
  by (induction f t and es d t' rule: lookup_lookup_in.induct) (auto split: if_splits)

lemma lookup_snoc:
  "lookup f p = Some (Dir es) \<Longrightarrow> lookup f (p @ [n]) = map_of es n"
  "lookup_in es' d p' = Some (Dir es) \<Longrightarrow> lookup_in es' d (p' @ [n]) = map_of es n"
  by (induction f p and es' d p' rule: lookup_lookup_in.induct)
     (auto split: if_splits simp: lookup_in_map_of)

lemma lookup_set_parent:
  "lookup f p = Some (Dir es) \<Longrightarrow> \<exists>es'. lookup (fs_set (p @ [n]) (Some x) f) p = Some (Dir es')"
  "lookup_in es0 d p' = Some (Dir es)
     \<Longrightarrow> \<exists>es'. lookup_in (fs_set_in d (p' @ [n]) (Some x) es0) d p' = Some (Dir es')"
proof (induction f p and es0 d p' rule: lookup_lookup_in.induct)
  case (1 n')
  then show ?case by simp
next
  case (2 es d p)
  then show ?case by simp
next
  case (3 b d p)
  then show ?case by simp
next
  case (4 t d p)
  then show ?case by simp
next
  case (5 s d p)
  then show ?case by simp
next
  case (6 d p)
  then show ?case by simp
next
  case (7 n' c es0 d p)
  then show ?case
    by (cases p) (auto split: if_splits)
qed

lemma is_dir_iff: "is_dir f p = (\<exists>es. lookup f p = Some (Dir es))"
  by (auto simp: is_dir_def split: option.splits node.splits)

lemma update_entries: "set (AList.update k v m) \<subseteq> insert (k, v) (set m)"
  by (induction m) auto

lemma update_keys: "fst ` set (AList.update k v m) = insert k (fst ` set m)"
  by (induction m) auto

lemma same_length_frame:
  assumes "length t = length t'" and "t \<noteq> t'"
  shows "lookup (fs_set t v f) t' = lookup f t'"
proof (rule lookup_frame(1))
  show "\<not> prefix t t'" using assms by (auto simp: prefix_def)
  show "\<not> prefix t' t" using assms by (auto simp: prefix_def)
qed

lemma prepare_loop_isolated:
  assumes "prepare_loop e ps m w = Return m' w'"
    and "\<forall>p \<in> R. (\<exists>es. L p = Some (Dir es)) \<and> \<not> prefix p (tmpdir e) \<and> lookup (fs w) p = L p"
    and "set ps \<subseteq> R"
    and "\<forall>(p, t) \<in> set m. p \<in> R \<and> lookup (fs w) t = L p \<and> length t = Suc (length (tmpdir e))
            \<and> (\<forall>p' \<in> R. \<not> prefix p' t \<and> \<not> prefix t p')"
  shows "(\<forall>p \<in> R. lookup (fs w') p = L p)
       \<and> (\<forall>(p, t) \<in> set m'. p \<in> R \<and> lookup (fs w') t = L p \<and> length t = Suc (length (tmpdir e))
            \<and> (\<forall>p' \<in> R. \<not> prefix p' t \<and> \<not> prefix t p'))
       \<and> fst ` set m' = fst ` set m \<union> set ps"
  using assms
proof (induction ps arbitrary: m w)
  case Nil
  then show ?case by auto
next
  case (Cons p ps)
  show ?case
  proof (cases e "replace_slash (path_name p) @ ''_overlay_''" w rule: mkdtemp_cases)
    case (fail x)
    with Cons.prems(1) show ?thesis by (simp add: after_def)
  next
    case (ok s es)
    let ?t = "tmpdir e @ [(replace_slash (path_name p) @ ''_overlay_'') @ s]"
    let ?f1 = "fs_set ?t (Some (Dir [])) (fs w)"
    let ?w1 = "w\<lparr>fs := ?f1, created := created w @ [?t]\<rparr>"
    note mk = ok(1)
    have fresh: "lookup (fs w) ?t = None"
      using lookup_snoc(1) [OF ok(2)] ok(3) by simp
    from Cons.prems(3) have pR: "p \<in> R" by simp
    with Cons.prems(2) obtain ep where ep: "L p = Some (Dir ep)" by blast
    have sep: "\<not> prefix p' ?t \<and> \<not> prefix ?t p'" if "p' \<in> R" for p'
    proof
      from that Cons.prems(2) have ex: "lookup (fs w) p' \<noteq> None" and np: "\<not> prefix p' (tmpdir e)"
        by auto
      from ex fresh have "p' \<noteq> ?t" by auto
      with np show "\<not> prefix p' ?t" by simp
      show "\<not> prefix ?t p'"
      proof
        assume "prefix ?t p'"
        then obtain r where "p' = ?t @ r" by (auto elim: prefixE)
        with ex have "lookup (fs w) (?t @ r) \<noteq> None" by simp
        from lookup_prefix_exists(1) [OF this] fresh show False by simp
      qed
    qed
    have keep1: "lookup (fs_set ?t v (fs_set ?t v' (fs w))) p' = lookup (fs w) p'" if "p' \<in> R" for p' v v'
      using sep [OF that] by (simp add: lookup_frame(1))
    have p1: "lookup ?f1 p = Some (Dir ep)"
      using sep [OF pR] Cons.prems(2) pR ep by (simp add: lookup_frame(1))
    show ?thesis
    proof (cases rule: rsync_cases [of e p ?t ?w1])
      case (fail x w2)
      with mk Cons.prems(1) show ?thesis by (simp add: after_def)
    next
      case (ok w2)
      let ?f2 = "fs_set ?t (Some (Dir ep)) ?f1"
      from ok(1) p1 have f2: "fs w2 = ?f2"
        by (auto simp: rsync_def Let_def split: if_splits)
      from Cons.prems(1) mk ok(1)
      have rest: "prepare_loop e ps (AList.update p ?t m) w2 = Return m' w'"
        by (simp add: after_def)
      have R2: "\<forall>p' \<in> R. (\<exists>es. L p' = Some (Dir es)) \<and> \<not> prefix p' (tmpdir e) \<and> lookup (fs w2) p' = L p'"
        using Cons.prems(2) keep1 by (simp add: f2)
      from Cons.prems(3) have ps: "set ps \<subseteq> R" by simp
      from lookup_set_parent(1) [OF \<open>lookup (fs w) (tmpdir e) = Some (Dir es)\<close>] obtain es' where
        par: "lookup ?f1 (tmpdir e) = Some (Dir es')" by blast
      have new: "lookup (fs w2) ?t = L p"
        using lookup_set_same(1) [OF par] by (simp add: f2 ep)
      have old: "lookup (fs w2) t0 = L p0"
        if "(p0, t0) \<in> set m" for p0 t0
      proof -
        from that Cons.prems(4) have a: "p0 \<in> R" and b: "lookup (fs w) t0 = L p0"
          and c: "length t0 = Suc (length (tmpdir e))" by auto
        from a Cons.prems(2) b have "lookup (fs w) t0 \<noteq> None" by auto
        with fresh have ne: "?t \<noteq> t0" by auto
        have len: "length ?t = length t0" using c by simp
        show ?thesis
          using same_length_frame [OF len ne] b by (simp add: f2)
      qed
      have M2: "\<forall>(p0, t0) \<in> set (AList.update p ?t m).
                  p0 \<in> R \<and> lookup (fs w2) t0 = L p0 \<and> length t0 = Suc (length (tmpdir e))
                  \<and> (\<forall>p' \<in> R. \<not> prefix p' t0 \<and> \<not> prefix t0 p')"
      proof (intro ballI, clarify)
        fix p0 t0 assume "(p0, t0) \<in> set (AList.update p ?t m)"
        with update_entries [of p ?t m] have "(p0, t0) = (p, ?t) \<or> (p0, t0) \<in> set m" by auto
        then show "p0 \<in> R \<and> lookup (fs w2) t0 = L p0 \<and> length t0 = Suc (length (tmpdir e))
                  \<and> (\<forall>p' \<in> R. \<not> prefix p' t0 \<and> \<not> prefix t0 p')"
        proof
          assume "(p0, t0) = (p, ?t)"
          then show ?thesis using pR new sep by auto
        next
          assume in_m: "(p0, t0) \<in> set m"
          with Cons.prems(4) have "p0 \<in> R \<and> length t0 = Suc (length (tmpdir e))
                  \<and> (\<forall>p' \<in> R. \<not> prefix p' t0 \<and> \<not> prefix t0 p')" by auto
          with old [OF in_m] show ?thesis by simp
        qed
      qed
      from Cons.IH [OF rest R2 ps M2] show ?thesis
        by (auto simp: update_keys)
    qed
  qed
qed

lemma run_writes_frame:
  assumes "inside ts f ws" and "\<forall>t \<in> set ts. \<not> prefix p t \<and> \<not> prefix t p"
  shows "lookup (run_writes f ws) p = lookup f p"
  using assms(1)
proof (induction ws arbitrary: f)
  case Nil
  then show ?case by simp
next
  case (Cons x ws)
  obtain q v where x: "x = (q, v)" by (cases x) auto
  from Cons.prems have rest: "inside ts (mutate f q v) ws" by (simp add: x)
  have step: "lookup (mutate f q v) p = lookup f p"
  proof (cases "target f q v")
    case None
    then show ?thesis by (simp add: mutate_def)
  next
    case (Some r)
    with Cons.prems obtain t where t: "t \<in> set ts" and tr: "prefix t r"
      by (auto simp: x list_ex_iff)
    from t assms(2) have pt: "\<not> prefix p t" and tp: "\<not> prefix t p" by auto
    have rp: "\<not> prefix r p"
    proof
      assume "prefix r p"
      with tr have "prefix t p" by (rule prefix_order.trans)
      with tp show False ..
    qed
    have pr: "\<not> prefix p r"
    proof
      assume "prefix p r"
      from prefix_same_cases [OF this tr] tp pt show False by blast
    qed
    from lookup_frame(1) [OF rp pr] Some show ?thesis by (simp add: mutate_def)
  qed
  from Cons.IH [OF rest] step show ?case by (simp add: x)
qed

text \<open>
  Claim C8, as the code has it.  Take a batch of root directories none of which contains
  the directory where temporary directories are created, and a \<open>prepare_overlays\<close> that
  returns.  Every root of the batch has an overlay; each overlay path differs from its
  root and holds exactly what the root held (links copied as links), and no root is
  changed by the copying.  Afterwards, any sequence of writes, creations and removals
  each of which lands at or below one of the overlay paths leaves the content of every
  root as it was.  A mutation that names a path under an overlay but passes through a
  symbolic link lands where the link leads, which can be inside a root.
\<close>

theorem overlays_isolated:
  assumes "\<forall>p \<in> set ps. is_dir (fs w) p \<and> \<not> prefix p (tmpdir e)"
    and "prepare_overlays e ps w = Return overlays w'"
  shows "fst ` set overlays = set ps
       \<and> (\<forall>(p, t) \<in> set overlays.
             t \<noteq> p \<and> lookup (fs w') t = lookup (fs w) p \<and> lookup (fs w') p = lookup (fs w) p)
       \<and> (\<forall>ws. inside (map snd overlays) (fs w') ws
             \<longrightarrow> (\<forall>p \<in> set ps. lookup (run_writes (fs w') ws) p = lookup (fs w) p))"
proof -
  from assms(2) have loop: "prepare_loop e ps [] w = Return overlays w'"
    by (simp add: prepare_overlays_def)
  have R: "\<forall>p \<in> set ps. (\<exists>es. lookup (fs w) p = Some (Dir es)) \<and> \<not> prefix p (tmpdir e)
             \<and> lookup (fs w) p = lookup (fs w) p"
    using assms(1) by (simp add: is_dir_iff)
  have M: "\<forall>(p, t) \<in> set []. p \<in> set ps \<and> lookup (fs w) t = lookup (fs w) p
             \<and> length t = Suc (length (tmpdir e))
             \<and> (\<forall>p' \<in> set ps. \<not> prefix p' t \<and> \<not> prefix t p')"
    by simp
  from prepare_loop_isolated [OF loop R subset_refl M]
  have roots: "\<forall>p \<in> set ps. lookup (fs w') p = lookup (fs w) p"
    and ov: "\<forall>(p, t) \<in> set overlays. p \<in> set ps \<and> lookup (fs w') t = lookup (fs w) p
               \<and> length t = Suc (length (tmpdir e))
               \<and> (\<forall>p' \<in> set ps. \<not> prefix p' t \<and> \<not> prefix t p')"
    and keys: "fst ` set overlays = set ps"
    by auto
  have 2: "\<forall>(p, t) \<in> set overlays.
             t \<noteq> p \<and> lookup (fs w') t = lookup (fs w) p \<and> lookup (fs w') p = lookup (fs w) p"
  proof (intro ballI, clarify)
    fix p t assume pt: "(p, t) \<in> set overlays"
    with ov have a: "p \<in> set ps" and b: "lookup (fs w') t = lookup (fs w) p"
      and c: "\<forall>p' \<in> set ps. \<not> prefix p' t \<and> \<not> prefix t p'" by auto
    from c a have "\<not> prefix p t" by blast
    then have "t \<noteq> p" by auto
    with a b roots show "t \<noteq> p \<and> lookup (fs w') t = lookup (fs w) p \<and> lookup (fs w') p = lookup (fs w) p"
      by simp
  qed
  have 3: "\<forall>ws. inside (map snd overlays) (fs w') ws
             \<longrightarrow> (\<forall>p \<in> set ps. lookup (run_writes (fs w') ws) p = lookup (fs w) p)"
  proof (intro allI impI ballI)
    fix ws p assume i: "inside (map snd overlays) (fs w') ws" and p: "p \<in> set ps"
    have "\<forall>t \<in> set (map snd overlays). \<not> prefix p t \<and> \<not> prefix t p"
      using ov p by fastforce
    from run_writes_frame [OF i this] roots p
    show "lookup (run_writes (fs w') ws) p = lookup (fs w) p" by simp
  qed
  from keys 2 3 show ?thesis by blast
qed

theorem overlays_isolated_witness:
  "lookup (run_writes
             (Dir [(''home'', Dir [(''proj'', Dir [(''file.txt'', File ''one'')])]),
                   (''tmp'', Dir [(''proj_overlay_abc123'', Dir [(''file.txt'', File ''one'')])])])
             [([''tmp'', ''proj_overlay_abc123'', ''file.txt''], Some (File ''two'')),
              ([''tmp'', ''proj_overlay_abc123'', ''new''], Some (Dir [])),
              ([''tmp'', ''proj_overlay_abc123'', ''file.txt''], None)])
          [''home'', ''proj'']
   = lookup (fs demo_world) [''home'', ''proj'']"
proof -
  let ?c = "\<lambda>(_ :: string list) (f :: node). Inr (f, 0 :: int) :: stop + node \<times> int"
  let ?f1 = "Dir [(''home'', Dir [(''proj'', Dir [(''file.txt'', File ''one'')])]),
                   (''tmp'', Dir [(''proj_overlay_abc123'', Dir [(''file.txt'', File ''one'')])])]"
  let ?ws = "[([''tmp'', ''proj_overlay_abc123'', ''file.txt''], Some (File ''two'')),
              ([''tmp'', ''proj_overlay_abc123'', ''new''], Some (Dir [])),
              ([''tmp'', ''proj_overlay_abc123'', ''file.txt''], None)]"
  have d: "\<forall>p \<in> set [[''home'', ''proj'']].
             is_dir (fs demo_world) p \<and> \<not> prefix p (tmpdir (demo_env (\<lambda>_. 0) ?c))"
    by (simp add: demo_world_def demo_fs_def is_dir_def demo_env_def)
  have i: "inside (map snd [([''home'', ''proj''], [''tmp'', ''proj_overlay_abc123''])]) ?f1 ?ws"
    by (simp add: target_def entry_loc_def mutate_def resolve_numeral)
  from overlays_isolated [OF d demo_prepare [of ?c], THEN conjunct2, THEN conjunct2, THEN spec,
                          THEN mp, of ?ws] i
  show ?thesis by simp
qed

theorem write_through_link_changes_root:
  "(case prepare_overlays (demo_env (\<lambda>_. 0) (\<lambda>_ f. Inr (f, 0))) [[''home'', ''proj'']] link_world of
      Return m w' \<Rightarrow>
        m = [([''home'', ''proj''], [''tmp'', ''proj_overlay_abc123''])]
        \<and> lookup (fs w') [''home'', ''proj'', ''file.txt''] = Some (File ''one'')
        \<and> lookup (mutate (fs w') [''tmp'', ''proj_overlay_abc123'', ''lnk''] (Some (File ''two'')))
                  [''home'', ''proj'', ''file.txt'']
            = Some (File ''two'')
    | Raise x w' \<Rightarrow> False
    | Hang w' \<Rightarrow> False)"
  by (simp add: prepare_overlays_def mkdtemp_def rsync_def demo_env_def link_world_def
      path_name_def replace_slash_def path_str_def Let_def after_def
      mutate_def target_def resolve_numeral)

lemma overlay_inside_root_changes_root:
  "(case prepare_overlays (demo_env (\<lambda>_. 0) (\<lambda>_ f. Inr (f, 0))) [[''tmp'']] demo_world of
      Return m w' \<Rightarrow>
        m = [([''tmp''], [''tmp'', ''tmp_overlay_abc123''])]
        \<and> lookup (fs w') [''tmp''] \<noteq> lookup (fs demo_world) [''tmp'']
        \<and> lookup (mutate (fs w') [''tmp'', ''tmp_overlay_abc123'', ''new.txt''] (Some (File ''x'')))
                  [''tmp'']
            \<noteq> lookup (fs w') [''tmp'']
    | Raise x w' \<Rightarrow> False
    | Hang w' \<Rightarrow> False)"
  by (simp add: prepare_overlays_def mkdtemp_def rsync_def demo_env_def demo_world_def demo_fs_def
      path_name_def replace_slash_def path_str_def Let_def after_def
      mutate_def target_def entry_loc_def resolve_numeral)
section \<open>Snapshots\<close>


















end
